theory Spec2Isabelle
  imports Main "HOL-Library.Sublist"
begin

section \<open>Handlers as computations over a connection state\<close>

text \<open>
  The route handlers of \<^verbatim>\<open>ChannelsAPI\<close> are \<^verbatim>\<open>async (request, reply) => { try {...} catch
  (error) {...} }\<close>. A handler is modelled as a computation that threads a state (the
  reply object, the database behind \<^verbatim>\<open>server.db\<close>, the store methods called so far and
  the request log) and finishes either with a value or with a thrown value.
\<close>

datatype error = TypeError string | StoreError string

type_synonym ('s, 'a) io = "'s \<Rightarrow> (error + 'a) \<times> 's"

definition return :: "'a \<Rightarrow> ('s, 'a) io" where
  "return a s = (Inr a, s)"

definition throw :: "error \<Rightarrow> ('s, 'a) io" where
  "throw e s = (Inl e, s)"

definition await :: "('s, 'a) io \<Rightarrow> ('a \<Rightarrow> ('s, 'b) io) \<Rightarrow> ('s, 'b) io" where
  "await m f s = (case m s of (Inl e, s') \<Rightarrow> (Inl e, s') | (Inr a, s') \<Rightarrow> f a s')"

definition andThen :: "('s, 'a) io \<Rightarrow> ('s, 'b) io \<Rightarrow> ('s, 'b) io" where
  "andThen m k = await m (\<lambda>_. k)"

definition try_catch :: "('s, 'a) io \<Rightarrow> (error \<Rightarrow> ('s, 'a) io) \<Rightarrow> ('s, 'a) io" where
  "try_catch m h s = (case m s of (Inl e, s') \<Rightarrow> h e s' | (Inr a, s') \<Rightarrow> (Inr a, s'))"

subsection \<open>Requests, replies, the log\<close>

text \<open>
  \<^verbatim>\<open>ChannelType\<close> is the body of \<^verbatim>\<open>POST /channels\<close>; the handler reads its \<^verbatim>\<open>id\<close> and
  \<^verbatim>\<open>tenant\<close> (primed here, \<open>id\<close> being HOL's identity), the other fields are the
  record's extension. A query parameter is
  \<^verbatim>\<open>string | undefined\<close>, and so is the \<^verbatim>\<open>host\<close> header.
\<close>

record ChannelType =
  id' :: string
  tenant' :: string

record IAPIScheduleQuery =
  q_date :: "string option"
  q_start :: "string option"
  q_end :: "string option"

record 'ts ScheduleRangeOptions =
  r_date :: "string option"
  r_start :: "'ts option"
  r_end :: "'ts option"

record 'b request =
  headers_host :: "string option"
  body :: 'b
  params_channelId :: string
  query :: IAPIScheduleQuery

datatype ('c, 'i, 'ev) payload =
    Channels "'c list"
  | Item 'i
  | Events "'ev list"
  | Text string
  | Thrown error

record ('c, 'i, 'ev) reply =
  code :: nat
  sent :: "('c, 'i, 'ev) payload option"

datatype log_entry = Info string | Error error

datatype ('c, 'ts) db_call =
    ListAll
  | List string
  | GetChannelById string
  | Add 'c
  | GetScheduleEventsByChannelId string "'ts ScheduleRangeOptions"

record ('db, 'c, 'i, 'ev, 'ts) conn =
  reply :: "('c, 'i, 'ev) reply"
  db :: 'db
  calls :: "('c, 'ts) db_call list"
  logged :: "log_entry list"

subsection \<open>What the handlers depend on\<close>

text \<open>
  The stores behind \<^verbatim>\<open>server.db\<close>, the \<^verbatim>\<open>Channel\<close> class and \<^verbatim>\<open>dayjs\<close> are not part
  of the two files; the handlers are parametrised by them. A store method is a function
  of the database state that returns a value or throws. The four lookups are queries
  (\<^verbatim>\<open>listAll() -> Channel[]\<close>, \<^verbatim>\<open>getScheduleEventsByChannelId(channelId, range) ->
  ScheduleEvent[]\<close>): they return no new state. \<^verbatim>\<open>add\<close> returns the state it leaves
  behind, also when it throws.
\<close>

record ('db, 'c, 'm, 'ev, 'ts) deps =
  channels_listAll :: "'db \<Rightarrow> error + 'c list"
  channels_list :: "'db \<Rightarrow> string \<Rightarrow> error + 'c list"
  channels_getChannelById :: "'db \<Rightarrow> string \<Rightarrow> error + 'c option"
  channels_add :: "'db \<Rightarrow> 'c \<Rightarrow> (error + unit) \<times> 'db"
  scheduleEvents_getScheduleEventsByChannelId ::
    "'db \<Rightarrow> string \<Rightarrow> 'ts ScheduleRangeOptions \<Rightarrow> error + 'ev list"
  new_Channel :: "'m ChannelType_scheme \<Rightarrow> 'c"
  item :: "'c \<Rightarrow> 'm ChannelType_scheme"
  dayjs_valueOf :: "string \<Rightarrow> 'ts"

type_synonym ('db, 'c, 'm, 'ev, 'ts) st = "('db, 'c, 'm ChannelType_scheme, 'ev, 'ts) conn"

definition reply_code :: "nat \<Rightarrow> (('db, 'c, 'm, 'ev, 'ts) st, unit) io" where
  "reply_code n s = (Inr (), s\<lparr>reply := (reply s)\<lparr>code := n\<rparr>\<rparr>)"

definition reply_send ::
  "('c, 'm ChannelType_scheme, 'ev) payload \<Rightarrow> (('db, 'c, 'm, 'ev, 'ts) st, unit) io" where
  "reply_send p s = (Inr (), s\<lparr>reply := (reply s)\<lparr>sent := Some p\<rparr>\<rparr>)"

definition log_info :: "string \<Rightarrow> (('db, 'c, 'm, 'ev, 'ts) st, unit) io" where
  "log_info msg s = (Inr (), s\<lparr>logged := logged s @ [Info msg]\<rparr>)"

definition log_error :: "error \<Rightarrow> (('db, 'c, 'm, 'ev, 'ts) st, unit) io" where
  "log_error e s = (Inr (), s\<lparr>logged := logged s @ [Error e]\<rparr>)"

definition listAll ::
  "('db, 'c, 'm, 'ev, 'ts) deps \<Rightarrow> (('db, 'c, 'm, 'ev, 'ts) st, 'c list) io" where
  "listAll d s = (channels_listAll d (db s), s\<lparr>calls := calls s @ [ListAll]\<rparr>)"

definition list_tenant ::
  "('db, 'c, 'm, 'ev, 'ts) deps \<Rightarrow> string \<Rightarrow> (('db, 'c, 'm, 'ev, 'ts) st, 'c list) io" where
  "list_tenant d t s = (channels_list d (db s) t, s\<lparr>calls := calls s @ [List t]\<rparr>)"

definition getChannelById ::
  "('db, 'c, 'm, 'ev, 'ts) deps \<Rightarrow> string \<Rightarrow> (('db, 'c, 'm, 'ev, 'ts) st, 'c option) io" where
  "getChannelById d i s =
     (channels_getChannelById d (db s) i, s\<lparr>calls := calls s @ [GetChannelById i]\<rparr>)"

definition add ::
  "('db, 'c, 'm, 'ev, 'ts) deps \<Rightarrow> 'c \<Rightarrow> (('db, 'c, 'm, 'ev, 'ts) st, unit) io" where
  "add d c s =
     (case channels_add d (db s) c of
        (r, db') \<Rightarrow> (r, s\<lparr>db := db', calls := calls s @ [Add c]\<rparr>))"

definition getScheduleEventsByChannelId ::
  "('db, 'c, 'm, 'ev, 'ts) deps \<Rightarrow> string \<Rightarrow> 'ts ScheduleRangeOptions \<Rightarrow>
     (('db, 'c, 'm, 'ev, 'ts) st, 'ev list) io" where
  "getScheduleEventsByChannelId d c r s =
     (scheduleEvents_getScheduleEventsByChannelId d (db s) c r,
      s\<lparr>calls := calls s @ [GetScheduleEventsByChannelId c r]\<rparr>)"

subsection \<open>The three routes of ChannelsAPI\<close>

text \<open>
  JavaScript's \<^verbatim>\<open>if (x)\<close> on a \<^verbatim>\<open>string | undefined\<close>: \<^verbatim>\<open>undefined\<close> and the empty
  string are falsy. \<^verbatim>\<open>`${tenant}`\<close> prints \<^verbatim>\<open>undefined\<close> for a missing header.
\<close>

fun truthy :: "string option \<Rightarrow> bool" where
  "truthy None = False"
| "truthy (Some s) = (s \<noteq> [])"


text \<open>
  \<^verbatim>\<open>GET /channels\<close>. \<^verbatim>\<open>tenant.match(/^localhost/)\<close> throws a TypeError inside the
  \<^verbatim>\<open>try\<close> when the header is missing; the catch sets the status and sends nothing.
\<close>

definition GET_channels ::
  "('db, 'c, 'm, 'ev, 'ts) deps \<Rightarrow> 'b request \<Rightarrow> (('db, 'c, 'm, 'ev, 'ts) st, unit) io" where
  "GET_channels d request =
     try_catch
       (case headers_host request of
          None \<Rightarrow> throw (TypeError ''tenant is undefined'')
        | Some tenant \<Rightarrow>
            if prefix ''localhost'' tenant then
              await (listAll d) (\<lambda>channels.
                andThen (reply_code 200) (reply_send (Channels channels)))
            else
              andThen (log_info (''Listing channels for tenant '' @ [CHR 0x27] @ tenant @ [CHR 0x27]))
                (await (list_tenant d tenant) (\<lambda>channels.
                   andThen (reply_code 200) (reply_send (Channels channels)))))
       (\<lambda>error. andThen (log_error error) (reply_code 500))"


text \<open>\<^verbatim>\<open>GET /channels/:channelId/schedule\<close>: first the range, then the lookup.\<close>

definition rangeOpts ::
  "('db, 'c, 'm, 'ev, 'ts) deps \<Rightarrow> IAPIScheduleQuery \<Rightarrow> 'ts ScheduleRangeOptions" where
  "rangeOpts d q =
     (if truthy (q_date q) then \<lparr>r_date = q_date q, r_start = None, r_end = None\<rparr>
      else \<lparr>r_date = None,
            r_start = (if truthy (q_start q) then map_option (dayjs_valueOf d) (q_start q) else None),
            r_end = (if truthy (q_end q) then map_option (dayjs_valueOf d) (q_end q) else None)\<rparr>)"

definition GET_channels_schedule ::
  "('db, 'c, 'm, 'ev, 'ts) deps \<Rightarrow> 'b request \<Rightarrow> (('db, 'c, 'm, 'ev, 'ts) st, unit) io" where
  "GET_channels_schedule d request =
     try_catch
       (await (getScheduleEventsByChannelId d (params_channelId request) (rangeOpts d (query request)))
          (\<lambda>scheduleEvents. andThen (reply_code 200) (reply_send (Events scheduleEvents))))
       (\<lambda>error. andThen (log_error error) (reply_code 500))"

section \<open>Process start (server.ts)\<close>

text \<open>
  \<^verbatim>\<open>start\<close> is a straight sequence of statements: \<^verbatim>\<open>fastify()\<close>, the root route
  \<^verbatim>\<open>server.get('/')\<close>, the three awaited registrations \<^verbatim>\<open>server.register(db)\<close>,
  \<^verbatim>\<open>server.register(ChannelsAPI)\<close> and \<^verbatim>\<open>server.register(MRSSAutoSchedulerAPI)\<close>,
  \<^verbatim>\<open>new MRSSAutoScheduler(...)\<close>, the awaited \<^verbatim>\<open>mrssAutoScheduler.bootstrap()\<close> and
  \<^verbatim>\<open>mrssAutoScheduler.run()\<close>, and \<^verbatim>\<open>server.listen\<close>. What a statement does is not
  in the file; a statement may return, throw, or (an awaited promise) never settle. A
  throw rejects \<^verbatim>\<open>start\<close> and nothing after it runs; after a promise that never
  settles nothing runs either. The trace records each call, and its return or throw. A
  call of the scheduler carries the name of the method.
\<close>

datatype outcome = Returns | Throws | Pending

datatype step =
    Fastify
  | GetRoot
  | Register string
  | NewMRSSAutoScheduler
  | Scheduler string
  | Listen

datatype event = Call step | Return step | Throw step

fun statements :: "(step \<Rightarrow> outcome) \<Rightarrow> step list \<Rightarrow> event list" where
  "statements env [] = []"
| "statements env (x # xs) =
     Call x #
       (case env x of
          Returns \<Rightarrow> Return x # statements env xs
        | Throws \<Rightarrow> [Throw x]
        | Pending \<Rightarrow> [])"

definition start :: "(step \<Rightarrow> outcome) \<Rightarrow> event list" where
  "start env =
     statements env
       [Fastify, GetRoot,
        Register ''db'', Register ''ChannelsAPI'', Register ''MRSSAutoSchedulerAPI'',
        NewMRSSAutoScheduler, Scheduler ''bootstrap'', Scheduler ''run'',
        Listen]"

text \<open>\<open>a\<close> happens before the first \<open>b\<close> of a trace.\<close>

definition before :: "event \<Rightarrow> event \<Rightarrow> event list \<Rightarrow> bool" where
  "before a b tr = (a \<in> set (takeWhile (\<lambda>e. e \<noteq> b) tr))"

definition times :: "event \<Rightarrow> event list \<Rightarrow> nat" where
  "times a tr = length (filter (\<lambda>e. e = a) tr)"

section \<open>The Auto-Scheduler\<close>

text \<open>
  \<^verbatim>\<open>src/auto_scheduler/mrss\<close> is not among the source files; \<^verbatim>\<open>server.ts\<close> only
  constructs the scheduler and calls \<^verbatim>\<open>bootstrap()\<close> and \<^verbatim>\<open>run()\<close>. The definitions of
  this section follow the specification's sections 3 to 7.
\<close>

subsection \<open>Data model\<close>

text \<open>
  Modelled from the spec: the status of a schedule event (section 3), and the two errors
  of section 7 that leave a channel \<open>Starved\<close>.
\<close>

datatype event_status = Planned | Expired

datatype scheduler_error = FeedUnavailableError | EmptyFeedError

text \<open>
  Modelled from the spec: an already-parsed feed item as \<^verbatim>\<open>fetchItems\<close> returns it
  (section 6), and the \<^verbatim>\<open>PlayableItem\<close> of section 3: stable GUID, title, duration, the
  optional availability window, and the feed it comes from.
\<close>

record RawFeedItem =
  raw_guid :: string
  raw_title :: string
  raw_duration :: "int option"
  raw_earliest :: "int option"
  raw_latest :: "int option"

record PlayableItem =
  guid :: string
  title :: string
  duration :: int
  earliest :: "int option"
  latest :: "int option"
  sourceFeed :: string

text \<open>
  Modelled from the spec: the \<^verbatim>\<open>ScheduleEvent\<close> of section 3 (channelId, start, end =
  start + duration, sequence number, GUID of the originating item, status), with the loop
  counter of section 4.1 that tags each repeated pass over the feed. Times are epoch
  times, durations are in the same unit.
\<close>

record ScheduleEvent =
  channelId :: string
  start_time :: int
  end_time :: int
  sequence :: nat
  itemGuid :: string
  loop :: nat
  status :: event_status

text \<open>
  Modelled from the spec: the scheduler's view of a channel (section 3): the tenant-scoped
  identity, the configured rolling-horizon length and the feed it is filled from.
\<close>

record Channel = ChannelType +
  horizon :: int
  feedSource :: string

text \<open>
  Modelled from the spec: the scheduler-private cursor of section 3. The feed source of
  section 6 (\<^verbatim>\<open>fetchItems(channel) -> RawFeedItem[]\<close>) carries no revision, so the
  last-seen feed revision is not represented.
\<close>

record SchedulerCursor =
  lastScheduledEnd :: int
  lastSuccessfulRun :: "int option"

text \<open>Modelled from the spec: the states of a channel in the orchestrator (section 4.5).\<close>

datatype run_state = Idle | Running | Starved | Failed

subsection \<open>Feed Item Normalizer\<close>

text \<open>
  Modelled from the spec: section 4.1. The raw items are deduplicated by GUID (the first
  occurrence stays), items whose duration is missing or not positive are dropped, and an
  item whose availability window excludes the scheduling instant is skipped for this
  pass. The order of the feed is kept.
\<close>

fun dedupe :: "string list \<Rightarrow> RawFeedItem list \<Rightarrow> RawFeedItem list" where
  "dedupe seen [] = []"
| "dedupe seen (r # rs) =
     (if raw_guid r \<in> set seen then dedupe seen rs else r # dedupe (raw_guid r # seen) rs)"

definition available :: "int \<Rightarrow> RawFeedItem \<Rightarrow> bool" where
  "available t r =
     ((case raw_earliest r of None \<Rightarrow> True | Some a \<Rightarrow> a \<le> t) \<and>
      (case raw_latest r of None \<Rightarrow> True | Some b \<Rightarrow> t \<le> b))"

definition playable :: "string \<Rightarrow> RawFeedItem \<Rightarrow> PlayableItem option" where
  "playable feed r =
     (case raw_duration r of
        None \<Rightarrow> None
      | Some d \<Rightarrow>
          if 0 < d then
            Some \<lparr>guid = raw_guid r, title = raw_title r, duration = d,
                  earliest = raw_earliest r, latest = raw_latest r, sourceFeed = feed\<rparr>
          else None)"

definition normalize :: "string \<Rightarrow> int \<Rightarrow> RawFeedItem list \<Rightarrow> PlayableItem list" where
  "normalize feed t raw = List.map_filter (playable feed) (filter (available t) (dedupe [] raw))"

subsection \<open>Timeline Placement Engine\<close>

text \<open>
  Modelled from the spec: section 4.2, \<^verbatim>\<open>place(channelId, cursorTime, items,
  targetEndTime)\<close>. Items are placed back to back from \<^verbatim>\<open>cursorTime\<close>, looping over the
  feed, until the placed timeline reaches or exceeds \<^verbatim>\<open>targetEndTime\<close>; no item is
  truncated. Sequence numbers continue the channel's last known one, which is a fifth
  argument here. The loop is the spec's: nothing in it bounds the number of rounds, so it
  is a partial function, and \<open>None\<close> stands for a placement that never returns.
\<close>

partial_function (option) place_loop ::
  "string \<Rightarrow> PlayableItem list \<Rightarrow> PlayableItem list \<Rightarrow> nat \<Rightarrow> int \<Rightarrow> nat \<Rightarrow> int \<Rightarrow>
     ScheduleEvent list option" where
  "place_loop c items rest k t n targetEndTime =
     (if targetEndTime \<le> t then Some []
      else
        (case rest of
           [] \<Rightarrow> place_loop c items items (k + 1) t n targetEndTime
         | x # xs \<Rightarrow>
             Option.bind (place_loop c items xs k (t + duration x) (n + 1) targetEndTime)
               (\<lambda>evs. Some (\<lparr>channelId = c, start_time = t, end_time = t + duration x,
                               sequence = n + 1, itemGuid = guid x, loop = k,
                               status = Planned\<rparr> # evs))))"

definition place ::
  "string \<Rightarrow> int \<Rightarrow> PlayableItem list \<Rightarrow> int \<Rightarrow> nat \<Rightarrow>
     (scheduler_error + ScheduleEvent list) option" where
  "place c cursorTime items targetEndTime lastSeq =
     (if items = [] then Some (Inl EmptyFeedError)
      else map_option Inr (place_loop c items items 0 cursorTime lastSeq targetEndTime))"

text \<open>Modelled from the spec: section 4.4, idempotency key = (channelId, sequence number).\<close>

definition idempotency_key :: "ScheduleEvent \<Rightarrow> string \<times> nat" where
  "idempotency_key e = (channelId e, sequence e)"

subsection \<open>Schedule event store\<close>

text \<open>
  Modelled from the spec: the schedule event store of section 6, as the list of the
  events persisted so far. \<^verbatim>\<open>add(events)\<close> is idempotent by sequence key: an event whose
  key is already stored is not inserted again. \<open>persisted\<close> is what
  \<^verbatim>\<open>getScheduleEventsByChannelId\<close> returns for the whole timeline of a channel.
\<close>

definition persisted :: "ScheduleEvent list \<Rightarrow> string \<Rightarrow> ScheduleEvent list" where
  "persisted evs c = filter (\<lambda>e. channelId e = c) evs"

fun add_events :: "ScheduleEvent list \<Rightarrow> ScheduleEvent list \<Rightarrow> ScheduleEvent list" where
  "add_events [] st = st"
| "add_events (e # es) st =
     add_events es (if idempotency_key e \<in> idempotency_key ` set st then st else st @ [e])"

subsection \<open>Horizon Maintainer and Reconciler\<close>

text \<open>
  Modelled from the spec: section 9 asks for the per-channel scheduling state as an
  explicit map from channel identity to a scheduler-owned record; \<open>world\<close> is that map
  (cursor and run state) together with the schedule event store.
\<close>

record world =
  store :: "ScheduleEvent list"
  cursors :: "string \<rightharpoonup> SchedulerCursor"
  runs :: "string \<Rightarrow> run_state"

definition world0 :: world where
  "world0 = \<lparr>store = [], cursors = Map.empty, runs = (\<lambda>_. Idle)\<rparr>"

text \<open>
  Modelled from the spec: the calls a pass makes on its collaborators (section 6): reading
  the persisted tail of a channel, \<^verbatim>\<open>fetchItems\<close>, and \<^verbatim>\<open>add(events)\<close>, the only write.
\<close>

datatype effect = ReadTail string | FetchItems string | AddEvents "ScheduleEvent list"

text \<open>
  Modelled from the spec: what one pass meets, namely the clock, whether the pass is
  forced (bootstrap), what \<^verbatim>\<open>fetchItems\<close> answers if it is asked, and whether the store
  takes the write batch (all of it or none of it, after its retries).
\<close>

record pass_env =
  now :: int
  forced :: bool
  fetched :: "scheduler_error + RawFeedItem list"
  accepted :: bool

text \<open>
  Modelled from the spec: the Horizon Maintainer of section 4.3.
  \<^verbatim>\<open>targetEndTime = now + configuredHorizon\<close>, and the horizon is already filled when
  \<^verbatim>\<open>cursor.lastScheduledEnd >= targetEndTime\<close>; a channel without a cursor is not filled.
\<close>

definition targetEndTime :: "'a Channel_scheme \<Rightarrow> pass_env \<Rightarrow> int" where
  "targetEndTime ch env = now env + horizon ch"

definition already_filled :: "'a Channel_scheme \<Rightarrow> pass_env \<Rightarrow> world \<Rightarrow> bool" where
  "already_filled ch env w =
     (case cursors w (id' ch) of
        None \<Rightarrow> False
      | Some cur \<Rightarrow> targetEndTime ch env \<le> lastScheduledEnd cur)"

text \<open>
  Modelled from the spec: the Reconciler of section 4.4. The cursor is re-derived from
  the persisted tail, never from the state in memory: its end is the end of the last
  persisted event of the channel, and the sequence numbers continue that event's. With
  nothing persisted the timeline starts at the instant of the pass, after sequence
  number 0. A successful write advances the cursor to the end of the placed events.
\<close>

definition tail_end :: "int \<Rightarrow> ScheduleEvent list \<Rightarrow> int" where
  "tail_end t evs = (if evs = [] then t else end_time (last evs))"

definition last_sequence :: "ScheduleEvent list \<Rightarrow> nat" where
  "last_sequence evs = (if evs = [] then 0 else sequence (last evs))"

definition rederive :: "string \<Rightarrow> int \<Rightarrow> world \<Rightarrow> world" where
  "rederive c t w =
     w\<lparr>cursors := (cursors w)(c \<mapsto>
          \<lparr>lastScheduledEnd = tail_end t (persisted (store w) c),
           lastSuccessfulRun =
             (case cursors w c of None \<Rightarrow> None | Some cur \<Rightarrow> lastSuccessfulRun cur)\<rparr>)\<rparr>"

definition commit :: "string \<Rightarrow> int \<Rightarrow> ScheduleEvent list \<Rightarrow> world \<Rightarrow> world" where
  "commit c t evs w =
     w\<lparr>store := add_events evs (store w),
       cursors := (cursors w)(c \<mapsto>
          \<lparr>lastScheduledEnd = end_time (last evs), lastSuccessfulRun = Some t\<rparr>)\<rparr>"

definition finish :: "string \<Rightarrow> run_state \<Rightarrow> world \<Rightarrow> world" where
  "finish c r w = w\<lparr>runs := (runs w)(c := r)\<rparr>"

text \<open>
  Modelled from the spec: one reconciliation pass for one channel, sections 4.3 to 4.5.
  \<^item> If the pass is not forced and the horizon is already filled, no work is needed: no
    read, no feed fetch, no write.
  \<^item> Otherwise the cursor is re-derived from the persisted tail. If that already reaches
    the target, the pass ends there.
  \<^item> Otherwise the feed is fetched and normalized and the delta is placed. A feed that
    cannot be fetched or has no usable item leaves the channel \<open>Starved\<close> and the schedule
    untouched.
  \<^item> The placed events are added to the store and the cursor advances to their end; a
    write the store rejects leaves the channel \<open>Failed\<close>.
  The pass returns the effects it had on its collaborators, in order, and the new state.
  The trim of section 4.3 (marking past events \<open>Expired\<close>) runs independently of placement
  and is not part of the pass.
\<close>

definition reconcile ::
  "'a Channel_scheme \<Rightarrow> pass_env \<Rightarrow> world \<Rightarrow> (effect list \<times> world) option" where
  "reconcile ch env w =
     (let c = id' ch in
      if \<not> forced env \<and> already_filled ch env w then Some ([], finish c Idle w)
      else
        let cursorTime = tail_end (now env) (persisted (store w) c);
            w1 = rederive c (now env) w
        in
          if targetEndTime ch env \<le> cursorTime then Some ([ReadTail c], finish c Idle w1)
          else
            (case fetched env of
               Inl e \<Rightarrow> Some ([ReadTail c, FetchItems c], finish c Starved w1)
             | Inr raw \<Rightarrow>
                 Option.bind
                   (place c cursorTime (normalize (feedSource ch) (now env) raw)
                      (targetEndTime ch env) (last_sequence (persisted (store w) c)))
                   (\<lambda>r. case r of
                      Inl e \<Rightarrow> Some ([ReadTail c, FetchItems c], finish c Starved w1)
                    | Inr evs \<Rightarrow>
                        if accepted env then
                          Some ([ReadTail c, FetchItems c, AddEvents evs],
                                finish c Idle (commit c (now env) evs w1))
                        else
                          Some ([ReadTail c, FetchItems c, AddEvents evs],
                                finish c Failed w1))))"

text \<open>
  Modelled from the spec: a history of the scheduler (sections 4.5 and 5). The
  orchestrator dispatches passes, forced at bootstrap and unforced on every tick, one at
  a time per channel; a history is any sequence of passes over any channels, and of
  restarts of the process, which lose the state in memory (cursors and run states) and
  keep the store. \<open>clock\<close> lists the instants of the passes.
\<close>

datatype 'a action = Pass "'a Channel_scheme" pass_env | Restart

fun passes :: "'a action list \<Rightarrow> world \<Rightarrow> world option" where
  "passes [] w = Some w"
| "passes (Pass ch env # as) w =
     Option.bind (reconcile ch env w) (\<lambda>r. passes as (snd r))"
| "passes (Restart # as) w = passes as (w\<lparr>cursors := Map.empty, runs := (\<lambda>_. Idle)\<rparr>)"

fun clock :: "'a action list \<Rightarrow> int list" where
  "clock [] = []"
| "clock (Pass ch env # as) = now env # clock as"
| "clock (Restart # as) = clock as"

subsection \<open>Scheduler Orchestrator\<close>





subsection \<open>The schedule invariant\<close>

fun contiguous :: "ScheduleEvent list \<Rightarrow> bool" where
  "contiguous [] = True"
| "contiguous [e] = True"
| "contiguous (e # f # es) = (end_time e = start_time f \<and> contiguous (f # es))"

definition ordered_by_start :: "ScheduleEvent list \<Rightarrow> bool" where
  "ordered_by_start evs = sorted_wrt (\<lambda>a b. start_time a < start_time b) evs"

definition non_overlapping :: "ScheduleEvent list \<Rightarrow> bool" where
  "non_overlapping evs =
     (\<forall>a \<in> set evs. \<forall>b \<in> set evs. a \<noteq> b \<longrightarrow>
        end_time a \<le> start_time b \<or> end_time b \<le> start_time a)"

definition covers :: "ScheduleEvent list \<Rightarrow> int \<Rightarrow> int \<Rightarrow> bool" where
  "covers evs a b =
     (\<forall>t. a \<le> t \<and> t < b \<longrightarrow> (\<exists>e \<in> set evs. start_time e \<le> t \<and> t < end_time e))"

text \<open>
  A timeline that starts at \<open>t\<close>: every event starts where the one before it ends, and
  every event has positive length; it stops at its \<open>tail_end\<close>.
\<close>

fun chain :: "int \<Rightarrow> ScheduleEvent list \<Rightarrow> bool" where
  "chain t [] = True"
| "chain t (e # es) = (start_time e = t \<and> start_time e < end_time e \<and> chain (end_time e) es)"

text \<open>What a placement from \<open>t\<close> towards \<open>target\<close>, after sequence number \<open>n\<close>, returns.\<close>

definition placed :: "string \<Rightarrow> int \<Rightarrow> nat \<Rightarrow> int \<Rightarrow> ScheduleEvent list \<Rightarrow> bool" where
  "placed c t n target evs =
     (chain t evs \<and> (\<forall>e \<in> set evs. channelId e = c \<and> status e = Planned) \<and>
      map sequence evs = [n + 1 ..< n + 1 + length evs] \<and>
      target \<le> tail_end t evs \<and> (target \<le> t \<longrightarrow> evs = []))"

text \<open>
  What every pass keeps, for each channel, at clock reading \<open>t\<close>: the persisted events
  are one timeline that began no later than \<open>t\<close>, their sequence numbers increase, and a
  cursor in memory points at the end of the persisted tail (with nothing persisted, at an
  instant that has passed).
\<close>

definition channel_inv :: "world \<Rightarrow> int \<Rightarrow> string \<Rightarrow> bool" where
  "channel_inv w t c =
     ((persisted (store w) c \<noteq> [] \<longrightarrow>
         chain (start_time (hd (persisted (store w) c))) (persisted (store w) c) \<and>
         start_time (hd (persisted (store w) c)) \<le> t) \<and>
      sorted_wrt (<) (map sequence (persisted (store w) c)) \<and>
      (\<forall>cur. cursors w c = Some cur \<longrightarrow>
         (persisted (store w) c = [] \<longrightarrow> lastScheduledEnd cur \<le> t) \<and>
         (persisted (store w) c \<noteq> [] \<longrightarrow>
            lastScheduledEnd cur = end_time (last (persisted (store w) c)))))"

definition schedule_inv :: "world \<Rightarrow> int \<Rightarrow> bool" where
  "schedule_inv w t = (\<forall>c. channel_inv w t c)"

section \<open>Concrete stores, requests and environments\<close>

text \<open>
  Modelled from the spec: the channel store and the schedule event store of section 6
  (\<^verbatim>\<open>src/db/dynamodb\<close> is not among the source files), as tables in memory: \<^verbatim>\<open>listAll\<close>,
  the listing by tenant, the lookup by id, \<^verbatim>\<open>add\<close>, and the schedule lookup, which
  returns the channel's whole timeline whatever the range. A store that is down throws on
  every call. The \<^verbatim>\<open>Channel\<close> class is its item. \<open>epoch_ms\<close> is \<^verbatim>\<open>dayjs(s).valueOf()\<close>
  on the two instants used below.
\<close>

record mem_db =
  mem_channels :: "ChannelType list"
  mem_events :: "ScheduleEvent list"
  mem_down :: bool

fun epoch_ms :: "string \<Rightarrow> int" where
  "epoch_ms s =
     (if s = ''2021-10-19T00:00:00Z'' then 1634601600000
      else if s = ''2021-10-20T00:00:00Z'' then 1634688000000
      else 0)"

definition mem_deps :: "(mem_db, ChannelType, unit, ScheduleEvent, int) deps" where
  "mem_deps =
     \<lparr>channels_listAll =
        (\<lambda>m. if mem_down m then Inl (StoreError ''unreachable'') else Inr (mem_channels m)),
      channels_list =
        (\<lambda>m t. if mem_down m then Inl (StoreError ''unreachable'')
               else Inr (filter (\<lambda>c. tenant' c = t) (mem_channels m))),
      channels_getChannelById =
        (\<lambda>m i. if mem_down m then Inl (StoreError ''unreachable'')
               else Inr (find (\<lambda>c. id' c = i) (mem_channels m))),
      channels_add =
        (\<lambda>m c. if mem_down m then (Inl (StoreError ''unreachable''), m)
               else (Inr (), m\<lparr>mem_channels := mem_channels m @ [c]\<rparr>)),
      scheduleEvents_getScheduleEventsByChannelId =
        (\<lambda>m c r. if mem_down m then Inl (StoreError ''unreachable'')
                 else Inr (persisted (mem_events m) c)),
      new_Channel = (\<lambda>b. b),
      item = (\<lambda>c. c),
      dayjs_valueOf = epoch_ms\<rparr>"

definition acme1 :: ChannelType where
  "acme1 = \<lparr>id' = ''news'', tenant' = ''acme.example''\<rparr>"

definition other1 :: ChannelType where
  "other1 = \<lparr>id' = ''sports'', tenant' = ''other.example''\<rparr>"

definition other2 :: ChannelType where
  "other2 = \<lparr>id' = ''films'', tenant' = ''other.example''\<rparr>"


definition news1 :: ScheduleEvent where
  "news1 = \<lparr>channelId = ''news'', start_time = 0, end_time = 30, sequence = 1,
            itemGuid = ''A'', loop = 0, status = Planned\<rparr>"

definition db1 :: mem_db where
  "db1 = \<lparr>mem_channels = [acme1, other1], mem_events = [news1], mem_down = False\<rparr>"

definition db2 :: mem_db where
  "db2 = \<lparr>mem_channels = [other2, acme1], mem_events = [], mem_down = False\<rparr>"

definition db_down :: mem_db where
  "db_down = \<lparr>mem_channels = [acme1], mem_events = [news1], mem_down = True\<rparr>"

definition conn_of :: "mem_db \<Rightarrow> (mem_db, ChannelType, unit, ScheduleEvent, int) st" where
  "conn_of m = \<lparr>reply = \<lparr>code = 200, sent = None\<rparr>, db = m, calls = [], logged = []\<rparr>"

definition req :: "string option \<Rightarrow> 'b \<Rightarrow> string \<Rightarrow> IAPIScheduleQuery \<Rightarrow> 'b request" where
  "req h b c q = \<lparr>headers_host = h, body = b, params_channelId = c, query = q\<rparr>"

definition no_query :: IAPIScheduleQuery where
  "no_query = \<lparr>q_date = None, q_start = None, q_end = None\<rparr>"

text \<open>A start of the process in which every statement returns.\<close>

definition all_return :: "step \<Rightarrow> outcome" where
  "all_return x = Returns"

text \<open>
  A channel with a horizon of 120 and its feed: item A (30), a second entry with A's
  GUID, an entry without duration, an entry that is not available yet, and item B (45).
  The bootstrap pass at instant 0 finds an empty store; \<open>scheduled\<close> is the state it
  leaves. \<open>tick_pass\<close> is a pass of the run loop at the same instant, \<open>later_pass\<close> one at
  instant 100.
\<close>

definition news :: Channel where
  "news = \<lparr>id' = ''news'', tenant' = ''acme.example'', horizon = 120, feedSource = ''acme-feed''\<rparr>"

definition raw_feed :: "RawFeedItem list" where
  "raw_feed =
     [\<lparr>raw_guid = ''A'', raw_title = ''Item A'', raw_duration = Some 30,
       raw_earliest = None, raw_latest = None\<rparr>,
      \<lparr>raw_guid = ''A'', raw_title = ''Item A again'', raw_duration = Some 10,
       raw_earliest = None, raw_latest = None\<rparr>,
      \<lparr>raw_guid = ''C'', raw_title = ''No duration'', raw_duration = None,
       raw_earliest = None, raw_latest = None\<rparr>,
      \<lparr>raw_guid = ''D'', raw_title = ''Not yet available'', raw_duration = Some 20,
       raw_earliest = Some 1000, raw_latest = None\<rparr>,
      \<lparr>raw_guid = ''B'', raw_title = ''Item B'', raw_duration = Some 45,
       raw_earliest = None, raw_latest = None\<rparr>]"

definition bootstrap_pass :: pass_env where
  "bootstrap_pass = \<lparr>now = 0, forced = True, fetched = Inr raw_feed, accepted = True\<rparr>"

definition tick_pass :: pass_env where
  "tick_pass = \<lparr>now = 0, forced = False, fetched = Inl FeedUnavailableError, accepted = False\<rparr>"

definition later_pass :: pass_env where
  "later_pass = \<lparr>now = 100, forced = False, fetched = Inr raw_feed, accepted = True\<rparr>"

definition news_events :: "ScheduleEvent list" where
  "news_events =
     [\<lparr>channelId = ''news'', start_time = 0, end_time = 30, sequence = 1,
       itemGuid = ''A'', loop = 0, status = Planned\<rparr>,
      \<lparr>channelId = ''news'', start_time = 30, end_time = 75, sequence = 2,
       itemGuid = ''B'', loop = 0, status = Planned\<rparr>,
      \<lparr>channelId = ''news'', start_time = 75, end_time = 105, sequence = 3,
       itemGuid = ''A'', loop = 1, status = Planned\<rparr>,
      \<lparr>channelId = ''news'', start_time = 105, end_time = 150, sequence = 4,
       itemGuid = ''B'', loop = 1, status = Planned\<rparr>]"

definition scheduled :: world where
  "scheduled =
     \<lparr>store = news_events,
      cursors = [''news'' \<mapsto> \<lparr>lastScheduledEnd = 150, lastSuccessfulRun = Some 0\<rparr>],
      runs = (\<lambda>_. Idle)\<rparr>"

text \<open>
  The same bootstrap pass when the store rejects the write, and the state it leaves.
\<close>

definition rejected_pass :: pass_env where
  "rejected_pass = \<lparr>now = 0, forced = True, fetched = Inr raw_feed, accepted = False\<rparr>"

definition failed_world :: world where
  "failed_world =
     \<lparr>store = [],
      cursors = [''news'' \<mapsto> \<lparr>lastScheduledEnd = 0, lastSuccessfulRun = None\<rparr>],
      runs = (\<lambda>_. Idle)(''news'' := Failed)\<rparr>"

text \<open>
  A clock that runs backwards: a pass at instant 100 fills [100, 250), and the bootstrap
  pass at instant 0 comes after it.
\<close>

definition ahead_pass :: pass_env where
  "ahead_pass = \<lparr>now = 100, forced = True, fetched = Inr raw_feed, accepted = True\<rparr>"

definition ahead_events :: "ScheduleEvent list" where
  "ahead_events =
     [\<lparr>channelId = ''news'', start_time = 100, end_time = 130, sequence = 1,
       itemGuid = ''A'', loop = 0, status = Planned\<rparr>,
      \<lparr>channelId = ''news'', start_time = 130, end_time = 175, sequence = 2,
       itemGuid = ''B'', loop = 0, status = Planned\<rparr>,
      \<lparr>channelId = ''news'', start_time = 175, end_time = 205, sequence = 3,
       itemGuid = ''A'', loop = 1, status = Planned\<rparr>,
      \<lparr>channelId = ''news'', start_time = 205, end_time = 250, sequence = 4,
       itemGuid = ''B'', loop = 1, status = Planned\<rparr>]"

definition ahead_world :: world where
  "ahead_world =
     \<lparr>store = ahead_events,
      cursors = [''news'' \<mapsto> \<lparr>lastScheduledEnd = 250, lastSuccessfulRun = Some 100\<rparr>],
      runs = (\<lambda>_. Idle)\<rparr>"




section \<open>The routes of ChannelsAPI\<close>

lemmas io_defs = return_def throw_def await_def andThen_def try_catch_def reply_code_def
  reply_send_def log_info_def log_error_def listAll_def list_tenant_def getChannelById_def
  add_def getScheduleEventsByChannelId_def

lemmas mem_defs = mem_deps_def acme1_def other1_def news1_def conn_of_def db1_def req_def
  no_query_def persisted_def






lemma GET_channels_calls:
  "calls (snd (GET_channels d request s)) =
     calls s @
       (case headers_host request of
          None \<Rightarrow> []
        | Some h \<Rightarrow> if prefix ''localhost'' h then [ListAll] else [List h])"
  by (simp add: GET_channels_def io_defs split: option.splits sum.splits)

lemma GET_channels_schedule_calls:
  "calls (snd (GET_channels_schedule d request s)) =
     calls s @
       [GetScheduleEventsByChannelId (params_channelId request) (rangeOpts d (query request))]"
  by (simp add: GET_channels_schedule_def io_defs split: sum.splits)

lemma GET_channels_returns: "fst (GET_channels d request s) = Inr ()"
  by (simp add: GET_channels_def io_defs split: option.splits sum.splits)

lemma GET_channels_schedule_returns: "fst (GET_channels_schedule d request s) = Inr ()"
  by (simp add: GET_channels_schedule_def io_defs split: sum.splits)

lemma GET_channels_no_host:
  "headers_host request = None \<Longrightarrow>
   GET_channels d request s =
     (Inr (), s\<lparr>reply := (reply s)\<lparr>code := 500\<rparr>,
        logged := logged s @ [Error (TypeError ''tenant is undefined'')]\<rparr>)"
  by (simp add: GET_channels_def io_defs)

lemma GET_channels_localhost:
  "headers_host request = Some h \<Longrightarrow> prefix ''localhost'' h \<Longrightarrow>
   channels_listAll d (db s) = Inr channels \<Longrightarrow>
   GET_channels d request s =
     (Inr (), s\<lparr>reply := \<lparr>code = 200, sent = Some (Channels channels)\<rparr>,
        calls := calls s @ [ListAll]\<rparr>)"
  by (simp add: GET_channels_def io_defs)

lemma GET_channels_localhost_throws:
  "headers_host request = Some h \<Longrightarrow> prefix ''localhost'' h \<Longrightarrow>
   channels_listAll d (db s) = Inl e \<Longrightarrow>
   GET_channels d request s =
     (Inr (), s\<lparr>reply := (reply s)\<lparr>code := 500\<rparr>,
        calls := calls s @ [ListAll], logged := logged s @ [Error e]\<rparr>)"
  by (simp add: GET_channels_def io_defs)

lemma GET_channels_tenant:
  "headers_host request = Some h \<Longrightarrow> \<not> prefix ''localhost'' h \<Longrightarrow>
   channels_list d (db s) h = Inr channels \<Longrightarrow>
   GET_channels d request s =
     (Inr (), s\<lparr>reply := \<lparr>code = 200, sent = Some (Channels channels)\<rparr>,
        calls := calls s @ [List h],
        logged := logged s @ [Info (''Listing channels for tenant '' @ [CHR 0x27] @ h @ [CHR 0x27])]\<rparr>)"
  by (simp add: GET_channels_def io_defs)

lemma GET_channels_tenant_throws:
  "headers_host request = Some h \<Longrightarrow> \<not> prefix ''localhost'' h \<Longrightarrow>
   channels_list d (db s) h = Inl e \<Longrightarrow>
   GET_channels d request s =
     (Inr (), s\<lparr>reply := (reply s)\<lparr>code := 500\<rparr>,
        calls := calls s @ [List h],
        logged := logged s @
          [Info (''Listing channels for tenant '' @ [CHR 0x27] @ h @ [CHR 0x27]), Error e]\<rparr>)"
  by (simp add: GET_channels_def io_defs)

lemma GET_channels_tenant_reply:
  "headers_host request = Some h \<Longrightarrow> \<not> prefix ''localhost'' h \<Longrightarrow>
   reply (snd (GET_channels d request s)) =
     (case channels_list d (db s) h of
        Inr channels \<Rightarrow> \<lparr>code = 200, sent = Some (Channels channels)\<rparr>
      | Inl e \<Rightarrow> (reply s)\<lparr>code := 500\<rparr>)"
  by (cases "channels_list d (db s) h")
    (simp_all add: GET_channels_tenant GET_channels_tenant_throws)

lemma GET_channels_schedule_ok:
  "scheduleEvents_getScheduleEventsByChannelId d (db s) (params_channelId request)
      (rangeOpts d (query request)) = Inr evs \<Longrightarrow>
   GET_channels_schedule d request s =
     (Inr (), s\<lparr>reply := \<lparr>code = 200, sent = Some (Events evs)\<rparr>,
        calls := calls s @
          [GetScheduleEventsByChannelId (params_channelId request) (rangeOpts d (query request))]\<rparr>)"
  by (simp add: GET_channels_schedule_def io_defs)

lemma GET_channels_schedule_throws:
  "scheduleEvents_getScheduleEventsByChannelId d (db s) (params_channelId request)
      (rangeOpts d (query request)) = Inl e \<Longrightarrow>
   GET_channels_schedule d request s =
     (Inr (), s\<lparr>reply := (reply s)\<lparr>code := 500\<rparr>,
        calls := calls s @
          [GetScheduleEventsByChannelId (params_channelId request) (rangeOpts d (query request))],
        logged := logged s @ [Error e]\<rparr>)"
  by (simp add: GET_channels_schedule_def io_defs)

lemma rangeOpts_date:
  "q_date q = Some x \<Longrightarrow> x \<noteq> [] \<Longrightarrow>
   rangeOpts d q = \<lparr>r_date = Some x, r_start = None, r_end = None\<rparr>"
  by (simp add: rangeOpts_def)

lemma rangeOpts_no_date:
  "\<not> truthy (q_date q) \<Longrightarrow>
   rangeOpts d q =
     \<lparr>r_date = None,
      r_start = (case q_start q of None \<Rightarrow> None | Some x \<Rightarrow> if x = [] then None else Some (dayjs_valueOf d x)),
      r_end = (case q_end q of None \<Rightarrow> None | Some x \<Rightarrow> if x = [] then None else Some (dayjs_valueOf d x))\<rparr>"
  by (cases "q_start q"; cases "q_end q") (simp_all add: rangeOpts_def)

text \<open>
  C1, as amended. \<^verbatim>\<open>GET /channels/:channelId/schedule\<close> calls
  \<^verbatim>\<open>getScheduleEventsByChannelId\<close> once, with the request's channel id and the range
  \<open>rangeOpts\<close> selects: if \<^verbatim>\<open>date\<close> is present and not the empty string, the range is that
  date string only, whatever \<^verbatim>\<open>start\<close> and \<^verbatim>\<open>end\<close> are; otherwise the range has no
  date, and each of \<^verbatim>\<open>start\<close> and \<^verbatim>\<open>end\<close> that is present and not the empty string is
  in the range as \<^verbatim>\<open>dayjs(..).valueOf()\<close>, the others are left out. With none of them the
  range is empty.
\<close>

theorem schedule_range_selection:
  "calls (snd (GET_channels_schedule d request s)) =
     calls s @ [GetScheduleEventsByChannelId (params_channelId request) (rangeOpts d (query request))] \<and>
   (truthy (q_date q) \<longrightarrow> rangeOpts d q = \<lparr>r_date = q_date q, r_start = None, r_end = None\<rparr>) \<and>
   (\<not> truthy (q_date q) \<longrightarrow>
      r_date (rangeOpts d q) = None \<and>
      (\<forall>x. q_start q = Some x \<and> x \<noteq> [] \<longrightarrow> r_start (rangeOpts d q) = Some (dayjs_valueOf d x)) \<and>
      (\<not> truthy (q_start q) \<longrightarrow> r_start (rangeOpts d q) = None) \<and>
      (\<forall>x. q_end q = Some x \<and> x \<noteq> [] \<longrightarrow> r_end (rangeOpts d q) = Some (dayjs_valueOf d x)) \<and>
      (\<not> truthy (q_end q) \<longrightarrow> r_end (rangeOpts d q) = None))"
proof (intro conjI impI)
  show "calls (snd (GET_channels_schedule d request s)) =
     calls s @ [GetScheduleEventsByChannelId (params_channelId request) (rangeOpts d (query request))]"
    by (rule GET_channels_schedule_calls)
next
  assume "truthy (q_date q)"
  then obtain x where "q_date q = Some x" "x \<noteq> []" by (cases "q_date q") auto
  then show "rangeOpts d q = \<lparr>r_date = q_date q, r_start = None, r_end = None\<rparr>"
    by (simp add: rangeOpts_date)
next
  assume n: "\<not> truthy (q_date q)"
  note r = rangeOpts_no_date[OF n, of d]
  show "r_date (rangeOpts d q) = None" by (simp add: r)
  show "\<forall>x. q_start q = Some x \<and> x \<noteq> [] \<longrightarrow> r_start (rangeOpts d q) = Some (dayjs_valueOf d x)"
    by (simp add: r)
  show "\<forall>x. q_end q = Some x \<and> x \<noteq> [] \<longrightarrow> r_end (rangeOpts d q) = Some (dayjs_valueOf d x)"
    by (simp add: r)
  show "r_start (rangeOpts d q) = None" if "\<not> truthy (q_start q)"
    using that by (cases "q_start q") (simp_all add: r)
  show "r_end (rangeOpts d q) = None" if "\<not> truthy (q_end q)"
    using that by (cases "q_end q") (simp_all add: r)
qed

theorem schedule_range_selection_witness:
  "rangeOpts mem_deps
      \<lparr>q_date = Some ''2021-10-19'', q_start = Some ''2021-10-19T00:00:00Z'', q_end = None\<rparr>
     = \<lparr>r_date = Some ''2021-10-19'', r_start = None, r_end = None\<rparr> \<and>
   rangeOpts mem_deps
      \<lparr>q_date = None, q_start = Some ''2021-10-19T00:00:00Z'',
       q_end = Some ''2021-10-20T00:00:00Z''\<rparr>
     = \<lparr>r_date = None, r_start = Some 1634601600000, r_end = Some 1634688000000\<rparr> \<and>
   rangeOpts mem_deps no_query = \<lparr>r_date = None, r_start = None, r_end = None\<rparr> \<and>
   calls (snd (GET_channels_schedule mem_deps (req None () ''news'' no_query) (conn_of db1))) =
     [GetScheduleEventsByChannelId ''news'' \<lparr>r_date = None, r_start = None, r_end = None\<rparr>]"
  using schedule_range_selection [of mem_deps "req None () ''news'' no_query" "conn_of db1"
          "\<lparr>q_date = Some ''2021-10-19'', q_start = Some ''2021-10-19T00:00:00Z'', q_end = None\<rparr>"]
        schedule_range_selection [of mem_deps "req None () ''news'' no_query" "conn_of db1"
          "\<lparr>q_date = None, q_start = Some ''2021-10-19T00:00:00Z'',
            q_end = Some ''2021-10-20T00:00:00Z''\<rparr>"]
        schedule_range_selection [of mem_deps "req None () ''news'' no_query" "conn_of db1" no_query]
  by (simp add: mem_defs)

text \<open>
  C1 as it is stated fails on \<^verbatim>\<open>?date=&start=2021-10-19T00:00:00Z\<close>: the \<^verbatim>\<open>date\<close>
  parameter is present, its value is the empty string, \<^verbatim>\<open>if (date)\<close> is false, and the
  range holds the start timestamp and no date. Likewise on \<^verbatim>\<open>?start=\<close>: the \<^verbatim>\<open>start\<close>
  parameter is present and the range stays empty.
\<close>

theorem rangeOpts_empty_date_counterexample:
  "rangeOpts mem_deps
      \<lparr>q_date = Some [], q_start = Some ''2021-10-19T00:00:00Z'', q_end = None\<rparr>
     = \<lparr>r_date = None, r_start = Some 1634601600000, r_end = None\<rparr> \<and>
   rangeOpts mem_deps
      \<lparr>q_date = Some [], q_start = Some ''2021-10-19T00:00:00Z'', q_end = None\<rparr>
     \<noteq> \<lparr>r_date = Some [], r_start = None, r_end = None\<rparr> \<and>
   rangeOpts mem_deps \<lparr>q_date = None, q_start = Some [], q_end = None\<rparr>
     = \<lparr>r_date = None, r_start = None, r_end = None\<rparr>"
  by (simp add: rangeOpts_def mem_deps_def)

text \<open>
  C2. When the schedule event store returns, \<^verbatim>\<open>GET /channels/:channelId/schedule\<close>
  ends normally with status 200 and exactly the list the store returned as the payload;
  the database is the one it started with, the lookup is the only store method called,
  and nothing is logged.
\<close>

theorem schedule_replies_store_result:
  "scheduleEvents_getScheduleEventsByChannelId d (db s) (params_channelId request)
      (rangeOpts d (query request)) = Inr evs \<Longrightarrow>
   GET_channels_schedule d request s =
     (Inr (), s\<lparr>reply := \<lparr>code = 200, sent = Some (Events evs)\<rparr>,
        calls := calls s @
          [GetScheduleEventsByChannelId (params_channelId request) (rangeOpts d (query request))]\<rparr>)"
  by (rule GET_channels_schedule_ok)

theorem schedule_replies_store_result_witness:
  "GET_channels_schedule mem_deps (req (Some ''acme.example'') () ''news'' no_query) (conn_of db1) =
     (Inr (), \<lparr>reply = \<lparr>code = 200, sent = Some (Events [news1])\<rparr>, db = db1,
        calls = [GetScheduleEventsByChannelId ''news'' \<lparr>r_date = None, r_start = None, r_end = None\<rparr>],
        logged = []\<rparr>)"
  using schedule_replies_store_result
          [of mem_deps "conn_of db1" "req (Some ''acme.example'') () ''news'' no_query" "[news1]"]
  by (simp add: mem_defs rangeOpts_def)

text \<open>
  C8. \<^verbatim>\<open>GET /channels\<close> with a Host header \<open>h\<close>. If \<open>h\<close> starts with \<^verbatim>\<open>localhost\<close>, the
  only store method called is \<^verbatim>\<open>listAll\<close>, and when it returns, the reply is 200 with
  all the channels it returned. Otherwise the only store method called is the listing
  for tenant \<open>h\<close>, the reply is a function of that listing's result alone, and two
  stores (of any kind) that answer the listing for \<open>h\<close> alike give the same reply and
  the same completion, whatever else they hold.
\<close>

theorem GET_channels_tenant_isolation:
  "headers_host request = Some h \<longrightarrow>
     (prefix ''localhost'' h \<longrightarrow>
        calls (snd (GET_channels d request s)) = calls s @ [ListAll] \<and>
        (\<forall>channels. channels_listAll d (db s) = Inr channels \<longrightarrow>
           reply (snd (GET_channels d request s)) =
             \<lparr>code = 200, sent = Some (Channels channels)\<rparr>)) \<and>
     (\<not> prefix ''localhost'' h \<longrightarrow>
        calls (snd (GET_channels d request s)) = calls s @ [List h] \<and>
        reply (snd (GET_channels d request s)) =
          (case channels_list d (db s) h of
             Inr channels \<Rightarrow> \<lparr>code = 200, sent = Some (Channels channels)\<rparr>
           | Inl e \<Rightarrow> (reply s)\<lparr>code := 500\<rparr>) \<and>
        (channels_list d2 (db s2) h = channels_list d (db s) h \<and> reply s2 = reply s \<longrightarrow>
           reply (snd (GET_channels d2 request s2)) = reply (snd (GET_channels d request s)) \<and>
           fst (GET_channels d2 request s2) = fst (GET_channels d request s)))"
proof (intro impI conjI allI)
  assume h: "headers_host request = Some h" and l: "prefix ''localhost'' h"
  show "calls (snd (GET_channels d request s)) = calls s @ [ListAll]"
    using h l by (simp add: GET_channels_calls)
  show "reply (snd (GET_channels d request s)) = \<lparr>code = 200, sent = Some (Channels channels)\<rparr>"
    if "channels_listAll d (db s) = Inr channels" for channels
    using h l that by (simp add: GET_channels_localhost)
next
  assume h: "headers_host request = Some h" and l: "\<not> prefix ''localhost'' h"
  note r = GET_channels_tenant_reply[OF h l]
  show "calls (snd (GET_channels d request s)) = calls s @ [List h]"
    using h l by (simp add: GET_channels_calls)
  show "reply (snd (GET_channels d request s)) =
          (case channels_list d (db s) h of
             Inr channels \<Rightarrow> \<lparr>code = 200, sent = Some (Channels channels)\<rparr>
           | Inl e \<Rightarrow> (reply s)\<lparr>code := 500\<rparr>)"
    by (rule r)
  assume same: "channels_list d2 (db s2) h = channels_list d (db s) h \<and> reply s2 = reply s"
  show "reply (snd (GET_channels d2 request s2)) = reply (snd (GET_channels d request s))"
    using same r[of d s] r[of d2 s2] by (simp split: sum.splits)
  show "fst (GET_channels d2 request s2) = fst (GET_channels d request s)"
    by (simp add: GET_channels_returns)
qed

theorem GET_channels_tenant_isolation_witness:
  "reply (snd (GET_channels mem_deps (req (Some ''localhost:8080'') () [] no_query) (conn_of db1))) =
     \<lparr>code = 200, sent = Some (Channels [acme1, other1])\<rparr> \<and>
   reply (snd (GET_channels mem_deps (req (Some ''acme.example'') () [] no_query) (conn_of db1))) =
     \<lparr>code = 200, sent = Some (Channels [acme1])\<rparr> \<and>
   reply (snd (GET_channels mem_deps (req (Some ''acme.example'') () [] no_query) (conn_of db2))) =
     reply (snd (GET_channels mem_deps (req (Some ''acme.example'') () [] no_query) (conn_of db1)))"
  using GET_channels_tenant_isolation
          [of "req (Some ''localhost:8080'') () [] no_query" "''localhost:8080''"
              mem_deps "conn_of db1" mem_deps "conn_of db2"]
        GET_channels_tenant_isolation
          [of "req (Some ''acme.example'') () [] no_query" "''acme.example''"
              mem_deps "conn_of db1" mem_deps "conn_of db2"]
  by (simp add: mem_defs db2_def other2_def GET_channels_def io_defs)

text \<open>
  C9. The two GET routes end normally on every request and every store: no thrown value
  leaves the handler. When the store method a GET route calls throws, the status of the
  reply is set to 500 and nothing is sent, the thrown value is logged, the database is
  unchanged and the failed read is the only store method called.
\<close>

theorem GET_handlers_catch:
  "fst (GET_channels d request1 s) = Inr () \<and>
   fst (GET_channels_schedule d request2 s) = Inr () \<and>
   (headers_host request1 = Some h \<and>
    (if prefix ''localhost'' h then channels_listAll d (db s) else channels_list d (db s) h) = Inl e \<longrightarrow>
      reply (snd (GET_channels d request1 s)) = (reply s)\<lparr>code := 500\<rparr> \<and>
      db (snd (GET_channels d request1 s)) = db s \<and>
      calls (snd (GET_channels d request1 s)) =
        calls s @ [if prefix ''localhost'' h then ListAll else List h] \<and>
      last (logged (snd (GET_channels d request1 s))) = Error e) \<and>
   (scheduleEvents_getScheduleEventsByChannelId d (db s) (params_channelId request2)
      (rangeOpts d (query request2)) = Inl e \<longrightarrow>
      GET_channels_schedule d request2 s =
        (Inr (), s\<lparr>reply := (reply s)\<lparr>code := 500\<rparr>,
           calls := calls s @
             [GetScheduleEventsByChannelId (params_channelId request2) (rangeOpts d (query request2))],
           logged := logged s @ [Error e]\<rparr>))"
proof (intro conjI impI; (elim conjE)?)
  show "fst (GET_channels d request1 s) = Inr ()" by (rule GET_channels_returns)
  show "fst (GET_channels_schedule d request2 s) = Inr ()" by (rule GET_channels_schedule_returns)
next
  assume "scheduleEvents_getScheduleEventsByChannelId d (db s) (params_channelId request2)
      (rangeOpts d (query request2)) = Inl e"
  then show "GET_channels_schedule d request2 s =
        (Inr (), s\<lparr>reply := (reply s)\<lparr>code := 500\<rparr>,
           calls := calls s @
             [GetScheduleEventsByChannelId (params_channelId request2) (rangeOpts d (query request2))],
           logged := logged s @ [Error e]\<rparr>)"
    by (rule GET_channels_schedule_throws)
next
  assume h: "headers_host request1 = Some h"
    and t: "(if prefix ''localhost'' h then channels_listAll d (db s) else channels_list d (db s) h) = Inl e"
  have g: "GET_channels d request1 s =
     (Inr (), s\<lparr>reply := (reply s)\<lparr>code := 500\<rparr>,
        calls := calls s @ [if prefix ''localhost'' h then ListAll else List h],
        logged := logged s @
          (if prefix ''localhost'' h then []
           else [Info (''Listing channels for tenant '' @ [CHR 0x27] @ h @ [CHR 0x27])]) @ [Error e]\<rparr>)"
    using h t by (cases "prefix ''localhost'' h")
      (simp_all add: GET_channels_localhost_throws GET_channels_tenant_throws)
  show "reply (snd (GET_channels d request1 s)) = (reply s)\<lparr>code := 500\<rparr>" by (simp add: g)
  show "db (snd (GET_channels d request1 s)) = db s" by (simp add: g)
  show "calls (snd (GET_channels d request1 s)) =
        calls s @ [if prefix ''localhost'' h then ListAll else List h]" by (simp add: g)
  show "last (logged (snd (GET_channels d request1 s))) = Error e" by (simp add: g)
qed

theorem GET_handlers_catch_witness:
  "GET_channels mem_deps (req (Some ''acme.example'') () [] no_query) (conn_of db_down) =
     (Inr (), \<lparr>reply = \<lparr>code = 500, sent = None\<rparr>, db = db_down, calls = [List ''acme.example''],
        logged = [Info (''Listing channels for tenant '' @ [CHR 0x27] @ ''acme.example'' @ [CHR 0x27]),
                  Error (StoreError ''unreachable'')]\<rparr>) \<and>
   GET_channels_schedule mem_deps (req (Some ''acme.example'') () ''news'' no_query) (conn_of db_down) =
     (Inr (), \<lparr>reply = \<lparr>code = 500, sent = None\<rparr>, db = db_down,
        calls = [GetScheduleEventsByChannelId ''news'' \<lparr>r_date = None, r_start = None, r_end = None\<rparr>],
        logged = [Error (StoreError ''unreachable'')]\<rparr>)"
  using GET_handlers_catch
          [where d = mem_deps and s = "conn_of db_down" and h = "''acme.example''"
             and e = "StoreError ''unreachable''"
             and ?request1.0 = "req (Some ''acme.example'') () [] no_query"
             and ?request2.0 = "req (Some ''acme.example'') () ''news'' no_query"]
  by (simp add: mem_defs db_down_def GET_channels_def io_defs rangeOpts_def)

text \<open>
  C10. \<^verbatim>\<open>GET /channels/:channelId/schedule\<close> looks no channel up: the schedule lookup
  for the id of the request is the only store method it calls, for any id. The status it
  leaves is 200 or 500, never 404, and whenever the schedule event store returns a list
  for that id, the reply is 200 with that list.
\<close>

theorem schedule_no_channel_check:
  "(code (reply (snd (GET_channels_schedule d request s))) = 200 \<or>
    code (reply (snd (GET_channels_schedule d request s))) = 500) \<and>
   calls (snd (GET_channels_schedule d request s)) =
     calls s @ [GetScheduleEventsByChannelId (params_channelId request) (rangeOpts d (query request))] \<and>
   (\<forall>evs. scheduleEvents_getScheduleEventsByChannelId d (db s) (params_channelId request)
             (rangeOpts d (query request)) = Inr evs \<longrightarrow>
      fst (GET_channels_schedule d request s) = Inr () \<and>
      reply (snd (GET_channels_schedule d request s)) = \<lparr>code = 200, sent = Some (Events evs)\<rparr>)"
proof (cases "scheduleEvents_getScheduleEventsByChannelId d (db s) (params_channelId request)
                (rangeOpts d (query request))")
  case (Inl e)
  then show ?thesis
    by (simp add: GET_channels_schedule_throws)
next
  case (Inr evs)
  then show ?thesis
    by (simp add: GET_channels_schedule_ok)
qed

theorem schedule_no_channel_check_witness:
  "channels_getChannelById mem_deps db1 ''unknown'' = Inr None \<and>
   GET_channels_schedule mem_deps (req (Some ''acme.example'') () ''unknown'' no_query) (conn_of db1) =
     (Inr (), \<lparr>reply = \<lparr>code = 200, sent = Some (Events [])\<rparr>, db = db1,
        calls = [GetScheduleEventsByChannelId ''unknown'' \<lparr>r_date = None, r_start = None, r_end = None\<rparr>],
        logged = []\<rparr>)"
  using schedule_no_channel_check
          [of mem_deps "req (Some ''acme.example'') () ''unknown'' no_query" "conn_of db1"]
  by (simp add: mem_defs rangeOpts_def GET_channels_schedule_def io_defs)

section \<open>Process start\<close>

text \<open>
  C4. In every run of \<^verbatim>\<open>start\<close>, whatever its statements do: \<^verbatim>\<open>bootstrap()\<close> is called
  at most once, and exactly once when the statements before it (creating the server, the
  root route, the three registrations, constructing the scheduler) return; \<^verbatim>\<open>run()\<close> is
  called only after \<^verbatim>\<open>bootstrap()\<close> has returned; \<^verbatim>\<open>server.listen\<close> is called only after
  both have returned; and \<^verbatim>\<open>bootstrap\<close> and \<^verbatim>\<open>run\<close> are the only methods of the
  scheduler that are called.
\<close>

theorem start_order:
  "times (Call (Scheduler ''bootstrap'')) (start env) \<le> 1 \<and>
   (env Fastify = Returns \<and> env GetRoot = Returns \<and> env (Register ''db'') = Returns \<and>
    env (Register ''ChannelsAPI'') = Returns \<and> env (Register ''MRSSAutoSchedulerAPI'') = Returns \<and>
    env NewMRSSAutoScheduler = Returns \<longrightarrow>
      times (Call (Scheduler ''bootstrap'')) (start env) = 1) \<and>
   (Call (Scheduler ''run'') \<in> set (start env) \<longrightarrow>
      before (Return (Scheduler ''bootstrap'')) (Call (Scheduler ''run'')) (start env)) \<and>
   (Call Listen \<in> set (start env) \<longrightarrow>
      before (Return (Scheduler ''bootstrap'')) (Call Listen) (start env) \<and>
      before (Return (Scheduler ''run'')) (Call Listen) (start env)) \<and>
   (\<forall>m. Call (Scheduler m) \<in> set (start env) \<longrightarrow> m = ''bootstrap'' \<or> m = ''run'')"
  by (simp add: start_def before_def times_def split: outcome.splits)

theorem start_order_witness:
  "start all_return =
     [Call Fastify, Return Fastify, Call GetRoot, Return GetRoot,
      Call (Register ''db''), Return (Register ''db''),
      Call (Register ''ChannelsAPI''), Return (Register ''ChannelsAPI''),
      Call (Register ''MRSSAutoSchedulerAPI''), Return (Register ''MRSSAutoSchedulerAPI''),
      Call NewMRSSAutoScheduler, Return NewMRSSAutoScheduler,
      Call (Scheduler ''bootstrap''), Return (Scheduler ''bootstrap''),
      Call (Scheduler ''run''), Return (Scheduler ''run''),
      Call Listen, Return Listen] \<and>
   times (Call (Scheduler ''bootstrap'')) (start all_return) = 1 \<and>
   before (Return (Scheduler ''bootstrap'')) (Call (Scheduler ''run'')) (start all_return) \<and>
   before (Return (Scheduler ''run'')) (Call Listen) (start all_return)"
  using start_order [of all_return]
  by (simp add: start_def all_return_def)

section \<open>Placement\<close>

text \<open>
  C6. Two items of durations 30 and 45 and a target of 120 (a horizon of two hours, in
  minutes, from instant 0): placement returns exactly four events, [0, 30), [30, 75),
  [75, 105), [105, 150), for the items A, B, A, B, the second pair tagged as the second
  loop over the feed. Their sequence numbers continue the last known one, and their
  idempotency keys are pairwise distinct although the GUIDs repeat.
\<close>

theorem looping_feed_placement:
  "place c 0 [a\<lparr>duration := 30\<rparr>, b\<lparr>duration := 45\<rparr>] 120 n =
     Some (Inr
       [\<lparr>channelId = c, start_time = 0, end_time = 30, sequence = n + 1,
         itemGuid = guid a, loop = 0, status = Planned\<rparr>,
        \<lparr>channelId = c, start_time = 30, end_time = 75, sequence = n + 2,
         itemGuid = guid b, loop = 0, status = Planned\<rparr>,
        \<lparr>channelId = c, start_time = 75, end_time = 105, sequence = n + 3,
         itemGuid = guid a, loop = 1, status = Planned\<rparr>,
        \<lparr>channelId = c, start_time = 105, end_time = 150, sequence = n + 4,
         itemGuid = guid b, loop = 1, status = Planned\<rparr>]) \<and>
   distinct (map idempotency_key
       [\<lparr>channelId = c, start_time = 0, end_time = 30, sequence = n + 1,
         itemGuid = guid a, loop = 0, status = Planned\<rparr>,
        \<lparr>channelId = c, start_time = 30, end_time = 75, sequence = n + 2,
         itemGuid = guid b, loop = 0, status = Planned\<rparr>,
        \<lparr>channelId = c, start_time = 75, end_time = 105, sequence = n + 3,
         itemGuid = guid a, loop = 1, status = Planned\<rparr>,
        \<lparr>channelId = c, start_time = 105, end_time = 150, sequence = n + 4,
         itemGuid = guid b, loop = 1, status = Planned\<rparr>])"
proof -
  have "place c 0 [a\<lparr>duration := 30\<rparr>, b\<lparr>duration := 45\<rparr>] 120 n =
     Some (Inr
       [\<lparr>channelId = c, start_time = 0, end_time = 30, sequence = n + 1,
         itemGuid = guid a, loop = 0, status = Planned\<rparr>,
        \<lparr>channelId = c, start_time = 30, end_time = 75, sequence = n + 2,
         itemGuid = guid b, loop = 0, status = Planned\<rparr>,
        \<lparr>channelId = c, start_time = 75, end_time = 105, sequence = n + 3,
         itemGuid = guid a, loop = 1, status = Planned\<rparr>,
        \<lparr>channelId = c, start_time = 105, end_time = 150, sequence = n + 4,
         itemGuid = guid b, loop = 1, status = Planned\<rparr>])"
    unfolding place_def
    by (simp, (subst place_loop.simps, simp)+)
  then show ?thesis
    by (simp add: idempotency_key_def)
qed

section \<open>The schedule invariant\<close>

subsection \<open>Timelines\<close>

lemma tail_end_Cons: "tail_end t (e # es) = tail_end (end_time e) es"
  by (simp add: tail_end_def)

lemma chain_append: "chain t (xs @ ys) = (chain t xs \<and> chain (tail_end t xs) ys)"
  by (induction xs arbitrary: t) (simp_all add: tail_end_Cons, simp add: tail_end_def)

lemma chain_le_tail: "chain t evs \<Longrightarrow> t \<le> tail_end t evs"
  by (induction evs arbitrary: t) (simp add: tail_end_def, fastforce simp: tail_end_Cons)

lemma chain_bounds:
  "chain t evs \<Longrightarrow> e \<in> set evs \<Longrightarrow> t \<le> start_time e \<and> end_time e \<le> tail_end t evs"
proof (induction evs arbitrary: t)
  case Nil
  then show ?case by simp
next
  case (Cons x xs)
  show ?case
  proof (cases "e = x")
    case True
    with Cons.prems chain_le_tail[of "end_time x" xs] show ?thesis
      by (simp add: tail_end_Cons)
  next
    case False
    with Cons.prems have "e \<in> set xs" "chain (end_time x) xs" by auto
    from Cons.IH[OF this(2) this(1)] Cons.prems show ?thesis
      by (simp add: tail_end_Cons)
  qed
qed

lemma chain_contiguous: "chain t evs \<Longrightarrow> contiguous evs"
  by (induction evs arbitrary: t rule: contiguous.induct) auto

lemma chain_ordered: "chain t evs \<Longrightarrow> ordered_by_start evs"
proof (induction evs arbitrary: t)
  case Nil
  then show ?case by (simp add: ordered_by_start_def)
next
  case (Cons x xs)
  then have "\<forall>e \<in> set xs. start_time x < start_time e"
    using chain_bounds[of "end_time x" xs] by fastforce
  moreover have "ordered_by_start xs" using Cons.IH[of "end_time x"] Cons.prems by simp
  ultimately show ?case by (simp add: ordered_by_start_def)
qed

lemma chain_sorted_nonoverlap:
  "chain t evs \<Longrightarrow> sorted_wrt (\<lambda>a b. end_time a \<le> start_time b \<and> a \<noteq> b) evs"
proof (induction evs arbitrary: t)
  case Nil
  then show ?case by simp
next
  case (Cons x xs)
  then have "\<forall>e \<in> set xs. end_time x \<le> start_time e \<and> x \<noteq> e"
    using chain_bounds[of "end_time x" xs] by fastforce
  moreover have "sorted_wrt (\<lambda>a b. end_time a \<le> start_time b \<and> a \<noteq> b) xs"
    using Cons.IH[of "end_time x"] Cons.prems by simp
  ultimately show ?case by simp
qed

lemma chain_non_overlapping: "chain t evs \<Longrightarrow> non_overlapping evs"
proof -
  assume "chain t evs"
  then have s: "sorted_wrt (\<lambda>a b. end_time a \<le> start_time b \<and> a \<noteq> b) evs"
    by (rule chain_sorted_nonoverlap)
  show ?thesis
    unfolding non_overlapping_def
  proof (intro ballI impI)
    fix a b assume a: "a \<in> set evs" and b: "b \<in> set evs" and ab: "a \<noteq> b"
    from a obtain i where i: "i < length evs" "evs ! i = a" by (auto simp: in_set_conv_nth)
    from b obtain j where j: "j < length evs" "evs ! j = b" by (auto simp: in_set_conv_nth)
    from ab i j have "i < j \<or> j < i" by (cases i j rule: linorder_cases) auto
    then show "end_time a \<le> start_time b \<or> end_time b \<le> start_time a"
      using sorted_wrt_nth_less[OF s, of i j] sorted_wrt_nth_less[OF s, of j i] i j by auto
  qed
qed

lemma chain_covers: "chain t evs \<Longrightarrow> covers evs t (tail_end t evs)"
proof (induction evs arbitrary: t)
  case Nil
  then show ?case by (simp add: covers_def tail_end_def)
next
  case (Cons x xs)
  then have "covers xs (end_time x) (tail_end (end_time x) xs)" by simp
  with Cons.prems show ?case
    unfolding covers_def tail_end_Cons
    by (metis chain.simps(2) insert_iff list.simps(15) not_le_imp_less)
qed

lemma covers_mono: "covers evs a b \<Longrightarrow> a \<le> a' \<Longrightarrow> b' \<le> b \<Longrightarrow> covers evs a' b'"
  by (auto simp: covers_def)

subsection \<open>Placement returns\<close>

lemma placed_Cons:
  assumes "placed c (t + d) (n + 1) target evs" "0 < d" "\<not> target \<le> t"
  shows "placed c t n target
           (\<lparr>channelId = c, start_time = t, end_time = t + d, sequence = n + 1,
             itemGuid = g, loop = k, status = Planned\<rparr> # evs)"
proof -
  have "[n + 1 ..< n + 1 + Suc (length evs)] = (n + 1) # [n + 1 + 1 ..< n + 1 + 1 + length evs]"
    by (subst upt_rec) simp
  with assms show ?thesis
    by (simp add: placed_def tail_end_Cons)
qed

lemma place_loop_returns:
  assumes "items \<noteq> []" "\<forall>x \<in> set items. 0 < duration x"
  shows "set rest \<subseteq> set items \<Longrightarrow>
         \<exists>evs. place_loop c items rest k t n target = Some evs \<and> placed c t n target evs"
proof (induction "nat (target - t)" arbitrary: t rest k n rule: less_induct)
  case less
  show ?case
  proof (cases "target \<le> t")
    case True
    then show ?thesis
      by (subst place_loop.simps) (simp add: placed_def tail_end_def)
  next
    case False
    have step: "\<exists>evs. place_loop c items (x # xs) j t n target = Some evs \<and> placed c t n target evs"
      if x: "x \<in> set items" and xs: "set xs \<subseteq> set items" for x xs j
    proof -
      have d: "0 < duration x" using assms(2) x by blast
      then have "nat (target - (t + duration x)) < nat (target - t)"
        using False by linarith
      from less.hyps[OF this xs, of j "n + 1"] obtain evs where
        e: "place_loop c items xs j (t + duration x) (n + 1) target = Some evs"
           "placed c (t + duration x) (n + 1) target evs" by blast
      have "place_loop c items (x # xs) j t n target =
              Some (\<lparr>channelId = c, start_time = t, end_time = t + duration x,
                     sequence = n + 1, itemGuid = guid x, loop = j, status = Planned\<rparr> # evs)"
        using False e(1) by (subst place_loop.simps) simp
      with placed_Cons[OF e(2) d False] show ?thesis by simp
    qed
    show ?thesis
    proof (cases rest)
      case Nil
      obtain x xs where items: "items = x # xs" using assms(1) by (cases items) auto
      have "place_loop c items [] k t n target = place_loop c items items (k + 1) t n target"
        using False by (subst place_loop.simps) simp
      with step[of x xs "k + 1"] items Nil show ?thesis by auto
    next
      case (Cons x xs)
      with step[of x xs k] less.prems show ?thesis by simp
    qed
  qed
qed

lemma place_returns:
  assumes "items \<noteq> []" "\<forall>x \<in> set items. 0 < duration x"
  shows "\<exists>evs. place c t items target n = Some (Inr evs) \<and> placed c t n target evs"
  using place_loop_returns[OF assms, of items c 0 t n target] assms(1)
  by (auto simp: place_def)

lemma map_filter_playable:
  "x \<in> set (List.map_filter (playable feed) rs) \<Longrightarrow> 0 < duration x"
  by (induction rs) (auto simp: playable_def split: option.splits if_splits)

lemma normalize_positive: "x \<in> set (normalize feed t raw) \<Longrightarrow> 0 < duration x"
  unfolding normalize_def by (rule map_filter_playable)

subsection \<open>What was placed\<close>

lemma placed_nonempty: "placed c t n target evs \<Longrightarrow> \<not> target \<le> t \<Longrightarrow> evs \<noteq> []"
  by (auto simp: placed_def tail_end_def)

lemma placed_member:
  "placed c t n target evs \<Longrightarrow> e \<in> set evs \<Longrightarrow> channelId e = c \<and> n < sequence e"
proof -
  assume p: "placed c t n target evs" and e: "e \<in> set evs"
  then have "sequence e \<in> set (map sequence evs)" by simp
  moreover from p have "map sequence evs = [n + 1 ..< n + 1 + length evs]"
    by (simp only: placed_def)
  ultimately have "sequence e \<in> set [n + 1 ..< n + 1 + length evs]" by simp
  with p e show ?thesis by (auto simp: placed_def)
qed

lemma placed_sorted: "placed c t n target evs \<Longrightarrow> sorted_wrt (<) (map sequence evs)"
proof -
  assume "placed c t n target evs"
  then have "map sequence evs = [n + 1 ..< n + 1 + length evs]"
    by (simp only: placed_def)
  then show ?thesis
    by (simp only: sorted_wrt_upt)
qed

lemma placed_distinct_keys: "placed c t n target evs \<Longrightarrow> distinct (map idempotency_key evs)"
proof -
  assume p: "placed c t n target evs"
  then have "map sequence evs = [n + 1 ..< n + 1 + length evs]"
    by (simp only: placed_def)
  then have "distinct (map sequence evs)" by (simp only: distinct_upt)
  then have "distinct evs" "inj_on sequence (set evs)" by (auto simp: distinct_map)
  then show ?thesis
    by (auto simp: distinct_map inj_on_def idempotency_key_def)
qed

lemma persisted_append: "persisted (st @ evs) c = persisted st c @ persisted evs c"
  by (simp add: persisted_def)

lemma persisted_same: "\<forall>e \<in> set evs. channelId e = c \<Longrightarrow> persisted evs c = evs"
  by (simp add: persisted_def)

lemma persisted_other: "\<forall>e \<in> set evs. channelId e = c \<Longrightarrow> c' \<noteq> c \<Longrightarrow> persisted evs c' = []"
  by (auto simp: persisted_def)

lemma add_events_append:
  "distinct (map idempotency_key evs) \<Longrightarrow>
   \<forall>e \<in> set evs. idempotency_key e \<notin> idempotency_key ` set st \<Longrightarrow>
   add_events evs st = st @ evs"
proof (induction evs arbitrary: st)
  case Nil
  then show ?case by simp
next
  case (Cons e es)
  have "idempotency_key x \<noteq> idempotency_key e" if "x \<in> set es" for x
    using Cons.prems(1) that by (metis distinct.simps(2) image_eqI list.simps(9) set_map)
  then have "\<forall>x \<in> set es. idempotency_key x \<notin> idempotency_key ` set (st @ [e])"
    using Cons.prems(2) by auto
  with Cons show ?case by simp
qed

lemma sorted_last_max:
  "sorted_wrt (<) (map sequence evs) \<Longrightarrow> e \<in> set evs \<Longrightarrow> sequence e \<le> sequence (last evs)"
proof (induction evs)
  case Nil
  then show ?case by simp
next
  case (Cons x xs)
  show ?case
  proof (cases "xs = []")
    case True
    with Cons.prems show ?thesis by simp
  next
    case False
    then have l: "last xs \<in> set xs" by simp
    show ?thesis
    proof (cases "e = x")
      case True
      with Cons.prems l False show ?thesis by (auto intro: less_imp_le)
    next
      case False
      with Cons \<open>xs \<noteq> []\<close> show ?thesis by simp
    qed
  qed
qed

subsection \<open>The cases of a pass\<close>

lemma finish_simps [simp]:
  "store (finish c r w) = store w"
  "cursors (finish c r w) = cursors w"
  "runs (finish c r w) = (runs w)(c := r)"
  by (simp_all add: finish_def)

lemma rederive_simps [simp]:
  "store (rederive c t w) = store w"
  "runs (rederive c t w) = runs w"
  "c' \<noteq> c \<Longrightarrow> cursors (rederive c t w) c' = cursors w c'"
  "cursors (rederive c t w) c = Some cur \<Longrightarrow>
     lastScheduledEnd cur = tail_end t (persisted (store w) c)"
  by (auto simp: rederive_def)

lemma commit_simps [simp]:
  "store (commit c t evs w) = add_events evs (store w)"
  "runs (commit c t evs w) = runs w"
  "c' \<noteq> c \<Longrightarrow> cursors (commit c t evs w) c' = cursors w c'"
  "cursors (commit c t evs w) c = Some cur \<Longrightarrow> lastScheduledEnd cur = end_time (last evs)"
  by (auto simp: commit_def)

lemma reconcile_cases:
  obtains
    (skip) "\<not> forced env" "already_filled ch env w"
      "reconcile ch env w = Some ([], finish (id' ch) Idle w)"
  | (filled) "targetEndTime ch env \<le> tail_end (now env) (persisted (store w) (id' ch))"
      "reconcile ch env w =
         Some ([ReadTail (id' ch)], finish (id' ch) Idle (rederive (id' ch) (now env) w))"
  | (starved)
      "\<forall>raw. fetched env = Inr raw \<longrightarrow> normalize (feedSource ch) (now env) raw = []"
      "reconcile ch env w =
         Some ([ReadTail (id' ch), FetchItems (id' ch)],
               finish (id' ch) Starved (rederive (id' ch) (now env) w))"
  | (rejected) evs where "\<not> accepted env"
      "reconcile ch env w =
         Some ([ReadTail (id' ch), FetchItems (id' ch), AddEvents evs],
               finish (id' ch) Failed (rederive (id' ch) (now env) w))"
  | (placed) evs where
      "\<not> targetEndTime ch env \<le> tail_end (now env) (persisted (store w) (id' ch))"
      "placed (id' ch) (tail_end (now env) (persisted (store w) (id' ch)))
         (last_sequence (persisted (store w) (id' ch))) (targetEndTime ch env) evs"
      "reconcile ch env w =
         Some ([ReadTail (id' ch), FetchItems (id' ch), AddEvents evs],
               finish (id' ch) Idle
                 (commit (id' ch) (now env) evs (rederive (id' ch) (now env) w)))"
proof (cases "\<not> forced env \<and> already_filled ch env w")
  case True
  then show ?thesis using skip by (simp add: reconcile_def)
next
  case nskip: False
  show ?thesis
  proof (cases "targetEndTime ch env \<le> tail_end (now env) (persisted (store w) (id' ch))")
    case True
    with nskip show ?thesis using filled by (simp add: reconcile_def Let_def)
  next
    case nfilled: False
    show ?thesis
    proof (cases "fetched env")
      case (Inl e)
      with nskip nfilled show ?thesis using starved by (simp add: reconcile_def Let_def)
    next
      case (Inr raw)
      show ?thesis
      proof (cases "normalize (feedSource ch) (now env) raw = []")
        case True
        with nskip nfilled Inr show ?thesis
          using starved by (simp add: reconcile_def Let_def place_def)
      next
        case False
        from place_returns[OF False, of "id' ch"
              "tail_end (now env) (persisted (store w) (id' ch))" "targetEndTime ch env"
              "last_sequence (persisted (store w) (id' ch))"] normalize_positive
        obtain evs where
          p: "place (id' ch) (tail_end (now env) (persisted (store w) (id' ch)))
                (normalize (feedSource ch) (now env) raw) (targetEndTime ch env)
                (last_sequence (persisted (store w) (id' ch))) = Some (Inr evs)"
             "placed (id' ch) (tail_end (now env) (persisted (store w) (id' ch)))
                (last_sequence (persisted (store w) (id' ch))) (targetEndTime ch env) evs"
          by blast
        show ?thesis
        proof (cases "accepted env")
          case True
          with nskip nfilled Inr p show ?thesis
            using placed[of evs] by (simp add: reconcile_def Let_def)
        next
          case False
          with nskip nfilled Inr p show ?thesis
            using rejected[of evs] by (simp add: reconcile_def Let_def)
        qed
      qed
    qed
  qed
qed

lemma reconcile_returns: "\<exists>r. reconcile ch env w = Some r"
  by (cases rule: reconcile_cases[of env ch w]) simp_all

subsection \<open>The invariant is kept\<close>

lemma channel_inv_mono: "channel_inv w t c \<Longrightarrow> t \<le> t' \<Longrightarrow> channel_inv w t' c"
  by (auto simp: channel_inv_def)

lemma channel_inv_finish [simp]: "channel_inv (finish c' r w) t c = channel_inv w t c"
  by (simp add: channel_inv_def)

lemma channel_inv_rederive: "channel_inv w t c \<Longrightarrow> channel_inv (rederive c' t w) t c"
proof (cases "c = c'")
  case True
  assume "channel_inv w t c"
  with True show ?thesis
    by (auto simp: channel_inv_def tail_end_def dest!: rederive_simps(4))
next
  case False
  assume "channel_inv w t c"
  with False show ?thesis
    by (simp add: channel_inv_def)
qed

lemma chain_hd: "chain t evs \<Longrightarrow> evs \<noteq> [] \<Longrightarrow> start_time (hd evs) = t"
  by (cases evs) simp_all

lemma commit_store:
  assumes inv: "channel_inv w t c"
    and p: "placed c (tail_end t (persisted (store w) c)) (last_sequence (persisted (store w) c))
              target evs"
  shows "add_events evs (store w) = store w @ evs"
proof (rule add_events_append)
  show "distinct (map idempotency_key evs)" using p by (rule placed_distinct_keys)
  show "\<forall>e \<in> set evs. idempotency_key e \<notin> idempotency_key ` set (store w)"
  proof (intro ballI notI)
    fix e assume e: "e \<in> set evs" and "idempotency_key e \<in> idempotency_key ` set (store w)"
    then obtain x where x: "x \<in> set (store w)" "idempotency_key x = idempotency_key e" by auto
    from placed_member[OF p e] have ce: "channelId e = c"
      and ne: "last_sequence (persisted (store w) c) < sequence e" by auto
    from x ce have xc: "x \<in> set (persisted (store w) c)" and sx: "sequence x = sequence e"
      by (auto simp: idempotency_key_def persisted_def)
    then have "persisted (store w) c \<noteq> []" by auto
    moreover from inv have "sorted_wrt (<) (map sequence (persisted (store w) c))"
      by (simp add: channel_inv_def)
    ultimately have "sequence x \<le> last_sequence (persisted (store w) c)"
      using sorted_last_max[OF _ xc] by (simp add: last_sequence_def)
    with ne sx show False by simp
  qed
qed

lemma channel_inv_commit_same:
  assumes inv: "channel_inv w t c"
    and p: "placed c (tail_end t (persisted (store w) c)) (last_sequence (persisted (store w) c))
              target evs"
    and n: "\<not> target \<le> tail_end t (persisted (store w) c)"
  shows "channel_inv (commit c t evs w) t c"
proof -
  let ?old = "persisted (store w) c"
  have ne: "evs \<noteq> []" using p n by (rule placed_nonempty)
  have all_c: "\<forall>e \<in> set evs. channelId e = c" using placed_member[OF p] by blast
  have st: "persisted (store (commit c t evs w)) c = ?old @ evs"
    using commit_store[OF inv p] persisted_same[OF all_c] by (simp add: persisted_append)
  have ch: "chain (tail_end t ?old) evs" using p by (simp add: placed_def)
  have chain': "chain (start_time (hd (?old @ evs))) (?old @ evs) \<and> start_time (hd (?old @ evs)) \<le> t"
  proof (cases "?old = []")
    case True
    with ch ne show ?thesis by (simp add: tail_end_def chain_hd)
  next
    case False
    with inv have o: "chain (start_time (hd ?old)) ?old" "start_time (hd ?old) \<le> t"
      by (simp_all add: channel_inv_def)
    have "tail_end (start_time (hd ?old)) ?old = tail_end t ?old"
      using False by (simp add: tail_end_def)
    with o ch False show ?thesis by (simp add: chain_append)
  qed
  have sorted': "sorted_wrt (<) (map sequence (?old @ evs))"
  proof -
    have so: "sorted_wrt (<) (map sequence ?old)" using inv by (simp add: channel_inv_def)
    have "sequence x < sequence y" if x: "x \<in> set ?old" and y: "y \<in> set evs" for x y
    proof -
      from x have "?old \<noteq> []" by auto
      then have "sequence x \<le> last_sequence ?old"
        using sorted_last_max[OF so x] by (simp add: last_sequence_def)
      with placed_member[OF p y] show ?thesis by simp
    qed
    with so placed_sorted[OF p] show ?thesis
      by (simp add: sorted_wrt_append)
  qed
  show ?thesis
    unfolding channel_inv_def st
    using chain' sorted' ne by (auto dest!: commit_simps(4))
qed

lemma channel_inv_commit_other:
  assumes inv: "channel_inv w t c"
    and inv': "channel_inv w t c'"
    and p: "placed c (tail_end t (persisted (store w) c)) (last_sequence (persisted (store w) c))
              target evs"
    and neq: "c' \<noteq> c"
  shows "channel_inv (commit c t evs w) t c'"
proof -
  have all_c: "\<forall>e \<in> set evs. channelId e = c" using placed_member[OF p] by blast
  have "persisted (store (commit c t evs w)) c' = persisted (store w) c'"
    using commit_store[OF inv p] persisted_other[OF all_c neq] by (simp add: persisted_append)
  with inv' neq show ?thesis
    by (simp add: channel_inv_def)
qed

lemma schedule_inv_commit:
  assumes "schedule_inv w t"
    and "placed c (tail_end t (persisted (store w) c)) (last_sequence (persisted (store w) c))
           target evs"
    and "\<not> target \<le> tail_end t (persisted (store w) c)"
  shows "schedule_inv (commit c t evs w) t"
  unfolding schedule_inv_def
proof
  fix c'
  from assms(1) have i: "channel_inv w t c" "channel_inv w t c'" by (simp_all add: schedule_inv_def)
  show "channel_inv (commit c t evs w) t c'"
  proof (cases "c' = c")
    case True
    with channel_inv_commit_same[OF i(1) assms(2,3)] show ?thesis by simp
  next
    case False
    with channel_inv_commit_other[OF i assms(2)] show ?thesis by simp
  qed
qed

lemma schedule_inv_rederive: "schedule_inv w t \<Longrightarrow> schedule_inv (rederive c t w) t"
  by (simp add: schedule_inv_def channel_inv_rederive)

lemma schedule_inv_finish [simp]: "schedule_inv (finish c r w) t = schedule_inv w t"
  by (simp add: schedule_inv_def)

lemma schedule_inv_mono: "schedule_inv w t \<Longrightarrow> t \<le> t' \<Longrightarrow> schedule_inv w t'"
  by (auto simp: schedule_inv_def intro: channel_inv_mono)

lemma reconcile_inv:
  assumes "schedule_inv w t" "t \<le> now env" "reconcile ch env w = Some r"
  shows "schedule_inv (snd r) (now env)"
proof -
  have i: "schedule_inv w (now env)" using assms(1,2) by (rule schedule_inv_mono)
  then have i1: "schedule_inv (rederive (id' ch) (now env) w) (now env)"
    by (rule schedule_inv_rederive)
  show ?thesis
  proof (cases rule: reconcile_cases[of env ch w])
    case skip
    with assms(3) i show ?thesis by auto
  next
    case filled
    with assms(3) i1 show ?thesis by auto
  next
    case starved
    with assms(3) i1 show ?thesis by auto
  next
    case (rejected evs)
    with assms(3) i1 show ?thesis by auto
  next
    case (placed evs)
    have "schedule_inv (commit (id' ch) (now env) evs (rederive (id' ch) (now env) w)) (now env)"
      using i1 placed(1,2) by (intro schedule_inv_commit[where target = "targetEndTime ch env"]) simp_all
    with assms(3) placed(3) show ?thesis by auto
  qed
qed

subsection \<open>A filled horizon\<close>

lemma inv_covers:
  assumes "channel_inv w t c" "target \<le> tail_end t (persisted (store w) c)"
  shows "covers (persisted (store w) c) t target"
proof (cases "persisted (store w) c = []")
  case True
  with assms(2) show ?thesis by (simp add: covers_def tail_end_def)
next
  case False
  with assms(1) have c: "chain (start_time (hd (persisted (store w) c))) (persisted (store w) c)"
    and s: "start_time (hd (persisted (store w) c)) \<le> t"
    by (simp_all add: channel_inv_def)
  have "tail_end (start_time (hd (persisted (store w) c))) (persisted (store w) c) =
          tail_end t (persisted (store w) c)"
    using False by (simp add: tail_end_def)
  with chain_covers[OF c] s assms(2) show ?thesis
    by (auto intro: covers_mono)
qed

lemma inv_timeline:
  assumes "channel_inv w t c"
  shows "ordered_by_start (persisted (store w) c) \<and> non_overlapping (persisted (store w) c) \<and>
         contiguous (persisted (store w) c)"
proof (cases "persisted (store w) c = []")
  case True
  then show ?thesis by (simp add: ordered_by_start_def non_overlapping_def)
next
  case False
  with assms have "chain (start_time (hd (persisted (store w) c))) (persisted (store w) c)"
    by (simp add: channel_inv_def)
  then show ?thesis
    by (simp add: chain_ordered chain_non_overlapping chain_contiguous)
qed

lemma persisted_commit:
  assumes "channel_inv w t c"
    and "placed c (tail_end t (persisted (store w) c)) (last_sequence (persisted (store w) c))
           target evs"
  shows "persisted (store (commit c t evs w)) c = persisted (store w) c @ evs"
proof -
  have "\<forall>e \<in> set evs. channelId e = c" using placed_member[OF assms(2)] by blast
  then show ?thesis
    using commit_store[OF assms] by (simp add: persisted_append persisted_same)
qed

lemma reconcile_fills:
  assumes "schedule_inv w t" "t \<le> now env" "reconcile ch env w = Some r"
    and idle: "runs (snd r) (id' ch) = Idle"
  shows "targetEndTime ch env \<le> tail_end (now env) (persisted (store (snd r)) (id' ch))"
proof -
  have i: "channel_inv w (now env) (id' ch)"
    using assms(1,2) by (auto simp: schedule_inv_def intro: channel_inv_mono)
  show ?thesis
  proof (cases rule: reconcile_cases[of env ch w])
    case skip
    from skip(2) obtain cur where cur: "cursors w (id' ch) = Some cur"
      "targetEndTime ch env \<le> lastScheduledEnd cur"
      by (auto simp: already_filled_def split: option.splits)
    with i have "lastScheduledEnd cur \<le> tail_end (now env) (persisted (store w) (id' ch))"
      by (auto simp: channel_inv_def tail_end_def)
    with cur(2) skip(3) assms(3) show ?thesis by auto
  next
    case filled
    with assms(3) show ?thesis by auto
  next
    case starved
    with assms(3) idle show ?thesis by auto
  next
    case (rejected evs)
    with assms(3) idle show ?thesis by auto
  next
    case (placed evs)
    let ?w1 = "rederive (id' ch) (now env) w"
    have i1: "channel_inv ?w1 (now env) (id' ch)" using i by (rule channel_inv_rederive)
    have ne: "evs \<noteq> []" using placed(2,1) by (rule placed_nonempty)
    have "persisted (store (commit (id' ch) (now env) evs ?w1)) (id' ch) =
            persisted (store w) (id' ch) @ evs"
      using persisted_commit[OF i1, of "targetEndTime ch env" evs] placed(2) by simp
    moreover have "targetEndTime ch env \<le> end_time (last evs)"
      using placed(2) ne by (simp add: placed_def tail_end_def)
    ultimately show ?thesis
      using placed(3) assms(3) ne by (auto simp: tail_end_def)
  qed
qed

lemma reconcile_idle:
  assumes "fetched env = Inr raw" "normalize (feedSource ch) (now env) raw \<noteq> []" "accepted env"
    and "reconcile ch env w = Some r"
  shows "runs (snd r) (id' ch) = Idle"
  using assms by (cases rule: reconcile_cases[of env ch w]) auto

lemma reconcile_filled_after:
  assumes "reconcile ch env w = Some r" "runs (snd r) (id' ch) = Idle"
  shows "already_filled ch env (snd r)"
proof (cases rule: reconcile_cases[of env ch w])
  case skip
  with assms(1) show ?thesis by (auto simp: already_filled_def)
next
  case filled
  with assms(1) show ?thesis
    by (auto simp: already_filled_def rederive_def)
next
  case starved
  with assms show ?thesis by auto
next
  case (rejected evs)
  with assms show ?thesis by auto
next
  case (placed evs)
  have "evs \<noteq> []" using placed(2,1) by (rule placed_nonempty)
  then have "targetEndTime ch env \<le> end_time (last evs)"
    using placed(2) by (simp add: placed_def tail_end_def)
  with placed(3) assms(1) show ?thesis
    by (auto simp: already_filled_def commit_def)
qed

lemma finish_same: "runs w c = r \<Longrightarrow> finish c r w = w"
  by (auto simp: finish_def)

lemma passes_append: "passes (xs @ ys) w = Option.bind (passes xs w) (passes ys)"
proof (induction xs arbitrary: w)
  case Nil
  then show ?case by simp
next
  case (Cons a xs)
  then show ?case
    by (cases a) (simp_all split: Option.bind_split)
qed

lemma schedule_inv_restart:
  "schedule_inv w t \<Longrightarrow> schedule_inv (w\<lparr>cursors := Map.empty, runs := r\<rparr>) t"
  by (simp add: schedule_inv_def channel_inv_def)

lemma passes_inv:
  "schedule_inv w t \<Longrightarrow> sorted (t # clock acts) \<Longrightarrow>
   \<exists>w'. passes acts w = Some w' \<and> schedule_inv w' (last (t # clock acts))"
proof (induction acts arbitrary: w t)
  case Nil
  then show ?case by simp
next
  case (Cons a acts)
  show ?case
  proof (cases a)
    case (Pass ch env)
    from reconcile_returns obtain r where r: "reconcile ch env w = Some r" by blast
    have le: "t \<le> now env" using Cons.prems(2) Pass by simp
    have "schedule_inv (snd r) (now env)" using Cons.prems(1) le r by (rule reconcile_inv)
    moreover have "sorted (now env # clock acts)" using Cons.prems(2) Pass by simp
    ultimately obtain w' where "passes acts (snd r) = Some w'"
      "schedule_inv w' (last (now env # clock acts))"
      using Cons.IH by blast
    with r Pass show ?thesis by simp
  next
    case Restart
    have "schedule_inv (w\<lparr>cursors := Map.empty, runs := (\<lambda>_. Idle)\<rparr>) t"
      using Cons.prems(1) by (rule schedule_inv_restart)
    moreover have "sorted (t # clock acts)" using Cons.prems(2) Restart by simp
    ultimately show ?thesis using Cons.IH Restart by simp
  qed
qed

lemma schedule_inv_world0: "schedule_inv world0 t"
  by (simp add: schedule_inv_def channel_inv_def world0_def persisted_def)

lemma clock_append: "clock (xs @ ys) = clock xs @ clock ys"
  by (induction xs rule: clock.induct) simp_all


lemma normalize_raw_feed:
  "normalize ''acme-feed'' 0 raw_feed =
     [\<lparr>guid = ''A'', title = ''Item A'', duration = 30, earliest = None, latest = None,
       sourceFeed = ''acme-feed''\<rparr>,
      \<lparr>guid = ''B'', title = ''Item B'', duration = 45, earliest = None, latest = None,
       sourceFeed = ''acme-feed''\<rparr>]"
  by (simp add: normalize_def raw_feed_def available_def playable_def)

lemma bootstrap_news:
  "reconcile news bootstrap_pass world0 =
     Some ([ReadTail ''news'', FetchItems ''news'', AddEvents news_events], scheduled)"
proof -
  have p: "place ''news'' 0 (normalize ''acme-feed'' 0 raw_feed) 120 0 = Some (Inr news_events)"
    unfolding normalize_raw_feed place_def news_events_def
    by (simp, (subst place_loop.simps, simp)+)
  have r: "(\<lambda>_. Idle)(''news'' := Idle) = (\<lambda>_ :: string. Idle)"
    by auto
  show ?thesis
    by (simp add: reconcile_def news_def bootstrap_pass_def world0_def persisted_def
        tail_end_def last_sequence_def targetEndTime_def rederive_def commit_def finish_def
        scheduled_def Let_def p r news_events_def idempotency_key_def)
qed


lemma rejected_news:
  "reconcile news rejected_pass world0 =
     Some ([ReadTail ''news'', FetchItems ''news'', AddEvents news_events], failed_world)"
proof -
  have p: "place ''news'' 0 (normalize ''acme-feed'' 0 raw_feed) 120 0 = Some (Inr news_events)"
    unfolding normalize_raw_feed place_def news_events_def
    by (simp, (subst place_loop.simps, simp)+)
  show ?thesis
    by (simp add: reconcile_def news_def rejected_pass_def world0_def persisted_def
        tail_end_def last_sequence_def targetEndTime_def rederive_def finish_def
        failed_world_def Let_def p)
qed

lemma normalize_raw_feed_later:
  "normalize ''acme-feed'' 100 raw_feed = normalize ''acme-feed'' 0 raw_feed"
  by (simp add: normalize_def raw_feed_def available_def playable_def)

lemma ahead_news:
  "reconcile news ahead_pass world0 =
     Some ([ReadTail ''news'', FetchItems ''news'', AddEvents ahead_events], ahead_world)"
proof -
  have p: "place ''news'' 100 (normalize ''acme-feed'' 100 raw_feed) 220 0 = Some (Inr ahead_events)"
    unfolding normalize_raw_feed_later normalize_raw_feed place_def ahead_events_def
    by (simp, (subst place_loop.simps, simp)+)
  have r: "(\<lambda>_. Idle)(''news'' := Idle) = (\<lambda>_ :: string. Idle)"
    by auto
  show ?thesis
    by (simp add: reconcile_def news_def ahead_pass_def world0_def persisted_def
        tail_end_def last_sequence_def targetEndTime_def rederive_def commit_def finish_def
        ahead_world_def Let_def p r ahead_events_def idempotency_key_def)
qed

lemma back_news:
  "reconcile news bootstrap_pass ahead_world = Some ([ReadTail ''news''], ahead_world)"
proof -
  have r: "(\<lambda>_. Idle)(''news'' := Idle) = (\<lambda>_ :: string. Idle)"
    by auto
  show ?thesis
    by (simp add: reconcile_def news_def bootstrap_pass_def persisted_def
        tail_end_def targetEndTime_def rederive_def finish_def
        ahead_world_def Let_def r ahead_events_def)
qed

lemma not_covers_ahead: "\<not> covers ahead_events 0 120"
proof
  assume "covers ahead_events 0 120"
  then have "\<exists>e \<in> set ahead_events. start_time e \<le> 0 \<and> 0 < end_time e"
    unfolding covers_def by (drule_tac x = 0 in spec) simp
  then show False by (simp add: ahead_events_def)
qed

lemma not_covers_nothing: "\<not> covers [] 0 120"
proof
  assume "covers [] 0 120"
  then have "\<exists>e \<in> set ([] :: ScheduleEvent list). start_time e \<le> 0 \<and> 0 < end_time e"
    unfolding covers_def by (drule_tac x = 0 in spec) simp
  then show False by simp
qed

text \<open>
  C5, as amended. Take any history of the scheduler that starts with an empty store and
  whose clock never runs backwards: passes over any channels, forced or not, successful
  or not, and restarts. If its last step is a pass for a channel whose feed is fetched
  and normalizes to at least one item, and the store accepts the write of that pass,
  then the history returns, and afterwards the persisted events of that channel are
  strictly ordered by start, pairwise non-overlapping and contiguous, and every instant
  of [now, now + horizon) lies in one of them.
\<close>

theorem reconciliation_fills_horizon:
  assumes "sorted (clock (acts @ [Pass ch env]))"
    and "fetched env = Inr raw"
    and "normalize (feedSource ch) (now env) raw \<noteq> []"
    and "accepted env"
  shows "\<exists>w. passes (acts @ [Pass ch env]) world0 = Some w \<and>
           ordered_by_start (persisted (store w) (id' ch)) \<and>
           non_overlapping (persisted (store w) (id' ch)) \<and>
           contiguous (persisted (store w) (id' ch)) \<and>
           covers (persisted (store w) (id' ch)) (now env) (now env + horizon ch)"
proof -
  define t0 where "t0 = (if clock acts = [] then now env else hd (clock acts))"
  have s: "sorted (clock acts @ [now env])" using assms(1) by (simp add: clock_append)
  have s0: "sorted (t0 # clock acts)"
    using s by (cases "clock acts") (auto simp: t0_def sorted_append)
  have le: "last (t0 # clock acts) \<le> now env"
    using s by (cases "clock acts") (auto simp: t0_def sorted_append)
  from passes_inv[OF schedule_inv_world0 s0] obtain w1 where
    w1: "passes acts world0 = Some w1" "schedule_inv w1 (last (t0 # clock acts))" by blast
  from reconcile_returns obtain r where r: "reconcile ch env w1 = Some r" by blast
  have i: "schedule_inv (snd r) (now env)" using w1(2) le r by (rule reconcile_inv)
  have idle: "runs (snd r) (id' ch) = Idle" using assms(2,3,4) r by (rule reconcile_idle)
  have "targetEndTime ch env \<le> tail_end (now env) (persisted (store (snd r)) (id' ch))"
    using w1(2) le r idle by (rule reconcile_fills)
  with i have "covers (persisted (store (snd r)) (id' ch)) (now env) (targetEndTime ch env)"
    by (intro inv_covers) (simp_all add: schedule_inv_def)
  moreover have "passes (acts @ [Pass ch env]) world0 = Some (snd r)"
    using w1(1) r by (simp add: passes_append)
  ultimately show ?thesis
    using inv_timeline[of "snd r" "now env" "id' ch"] i
    by (simp add: schedule_inv_def targetEndTime_def)
qed

theorem reconciliation_fills_horizon_witness:
  "\<exists>w. passes [Pass news bootstrap_pass, Restart, Pass news later_pass] world0 = Some w \<and>
       ordered_by_start (persisted (store w) ''news'') \<and>
       non_overlapping (persisted (store w) ''news'') \<and>
       contiguous (persisted (store w) ''news'') \<and>
       covers (persisted (store w) ''news'') 100 220"
proof -
  have 1: "sorted (clock ([Pass news bootstrap_pass, Restart] @ [Pass news later_pass]))"
    by (simp add: bootstrap_pass_def later_pass_def)
  have 2: "fetched later_pass = Inr raw_feed"
    by (simp add: later_pass_def)
  have 3: "normalize (feedSource news) (now later_pass) raw_feed \<noteq> []"
    by (simp add: normalize_def raw_feed_def available_def playable_def later_pass_def)
  have 4: "accepted later_pass"
    by (simp add: later_pass_def)
  from reconciliation_fills_horizon [OF 1 2 3 4] show ?thesis
    by (simp add: news_def later_pass_def)
qed

text \<open>
  C5 as it is stated fails. The feed of the channel normalizes to two items, and the
  store rejects the write of the pass (section 7, \<^verbatim>\<open>PersistenceError\<close>): the channel is
  \<open>Failed\<close>, nothing is persisted, and no instant of [0, 120) is covered. And when the
  clock runs backwards, from a pass at instant 100 to a pass at instant 0 for the same
  channel, with the feed fetched and the write accepted, the horizon of the second pass
  is already reached by the persisted tail, and [0, 100) stays uncovered.
\<close>

theorem reconciliation_fills_horizon_counterexample:
  "normalize (feedSource news) (now rejected_pass) raw_feed \<noteq> [] \<and>
   passes [Pass news rejected_pass] world0 = Some failed_world \<and>
   runs failed_world ''news'' = Failed \<and>
   persisted (store failed_world) ''news'' = [] \<and>
   \<not> covers (persisted (store failed_world) ''news'') (now rejected_pass)
       (now rejected_pass + horizon news) \<and>
   passes [Pass news ahead_pass, Pass news bootstrap_pass] world0 = Some ahead_world \<and>
   persisted (store ahead_world) ''news'' = ahead_events \<and>
   \<not> covers (persisted (store ahead_world) ''news'') (now bootstrap_pass)
       (now bootstrap_pass + horizon news)"
proof -
  have 1: "normalize (feedSource news) (now rejected_pass) raw_feed \<noteq> []"
    by (simp add: news_def rejected_pass_def normalize_raw_feed)
  have 2: "passes [Pass news rejected_pass] world0 = Some failed_world"
    by (simp add: rejected_news)
  have 3: "runs failed_world ''news'' = Failed"
    by (simp add: failed_world_def)
  have 4: "persisted (store failed_world) ''news'' = []"
    by (simp add: failed_world_def persisted_def)
  have 5: "\<not> covers (persisted (store failed_world) ''news'') (now rejected_pass)
             (now rejected_pass + horizon news)"
    using not_covers_nothing by (simp add: 4 rejected_pass_def news_def)
  have 6: "passes [Pass news ahead_pass, Pass news bootstrap_pass] world0 = Some ahead_world"
    by (simp add: ahead_news back_news)
  have 7: "persisted (store ahead_world) ''news'' = ahead_events"
    by (simp add: ahead_world_def persisted_def ahead_events_def)
  have 8: "\<not> covers (persisted (store ahead_world) ''news'') (now bootstrap_pass)
             (now bootstrap_pass + horizon news)"
    using not_covers_ahead by (simp add: 7 bootstrap_pass_def news_def)
  from 1 2 3 4 5 6 7 8 show ?thesis by blast
qed

text \<open>
  C7. A reconciliation pass always returns. If it leaves the channel \<open>Idle\<close> (the horizon
  was filled already, or the pass filled it), the horizon is filled afterwards, and a
  pass of the run loop for the same channel at the same instant has no effect at all: it
  reads nothing, fetches no feed and writes nothing, whatever the feed and the store
  would answer, and the state it returns (the schedule event store, the cursors, the run
  states) is the state it was given.
\<close>

theorem reconciliation_idempotent:
  assumes "now env' = now env"
    and "\<not> forced env'"
  shows "\<exists>r. reconcile ch env w = Some r \<and>
           (runs (snd r) (id' ch) = Idle \<longrightarrow>
              already_filled ch env (snd r) \<and>
              reconcile ch env' (snd r) = Some ([], snd r))"
proof -
  from reconcile_returns obtain r where r: "reconcile ch env w = Some r" by blast
  have "already_filled ch env (snd r) \<and> reconcile ch env' (snd r) = Some ([], snd r)"
    if idle: "runs (snd r) (id' ch) = Idle"
  proof -
    have f: "already_filled ch env (snd r)" using r idle by (rule reconcile_filled_after)
    moreover have "targetEndTime ch env' = targetEndTime ch env"
      using assms(1) by (simp add: targetEndTime_def)
    ultimately have "already_filled ch env' (snd r)"
      by (simp add: already_filled_def split: option.splits)
    with idle assms(2) f show ?thesis
      by (simp add: reconcile_def finish_same)
  qed
  with r show ?thesis by blast
qed

theorem reconciliation_idempotent_witness:
  "reconcile news bootstrap_pass world0 =
     Some ([ReadTail ''news'', FetchItems ''news'', AddEvents news_events], scheduled) \<and>
   reconcile news tick_pass scheduled = Some ([], scheduled)"
  using reconciliation_idempotent [of tick_pass bootstrap_pass news world0] bootstrap_news
  by (simp add: scheduled_def news_def tick_pass_def bootstrap_pass_def)

section \<open>Channel creation\<close>








end
